theory Spec2Isabelle
  imports Complex_Main "HOL-Library.Log_Nat" "HOL-Library.AList"
begin

section \<open>Python values: errors and list indexing\<close>

text \<open>
  The exceptions the modelled code can raise. A function of the source that can raise
  returns \<open>error + 'a\<close>, with \<open>Inl\<close> for the exception.
\<close>

datatype error = IndexError | KeyError | TypeError | ValueError | ZeroDivisionError

text \<open>
  Python list indexing: a negative index counts from the end, an index outside
  \<open>-len .. len - 1\<close> raises IndexError.
\<close>

definition py_index :: "'a list \<Rightarrow> int \<Rightarrow> error + nat" where
  "py_index xs i =
     (let n = int (length xs); j = (if i < 0 then i + n else i)
      in if 0 \<le> j \<and> j < n then Inr (nat j) else Inl IndexError)"

definition getitem :: "'a list \<Rightarrow> int \<Rightarrow> error + 'a" where
  "getitem xs i = (case py_index xs i of Inl e \<Rightarrow> Inl e | Inr k \<Rightarrow> Inr (xs ! k))"

definition setitem :: "'a list \<Rightarrow> int \<Rightarrow> 'a \<Rightarrow> error + 'a list" where
  "setitem xs i v = (case py_index xs i of Inl e \<Rightarrow> Inl e | Inr k \<Rightarrow> Inr (xs[k := v]))"

section \<open>KalahGame.py\<close>

text \<open>
  A move is a pit index, or \<open>None\<close>: the sentinel \<open>valid_moves\<close> returns for a side
  that cannot move.
\<close>

type_synonym move = "int option"

record KalahGame =
  board :: "int list"
  current_player :: int
  last_pit :: "int option"

text \<open>\<open>KalahGame.__init__\<close>\<close>

definition KalahGame_init :: KalahGame where
  "KalahGame_init =
     \<lparr>board = replicate 6 4 @ [0] @ replicate 6 4 @ [0], current_player = 0, last_pit = None\<rparr>"

text \<open>\<open>from_board_to_state\<close>: the board and the player to move, as a hashable key.\<close>

type_synonym state_key = "int list \<times> int"

definition from_board_to_state :: "KalahGame \<Rightarrow> state_key" where
  "from_board_to_state g = (board g, current_player g)"

text \<open>
  \<open>valid_moves\<close>: the list comprehension over \<open>range(start, start + 6)\<close>, which reads
  \<open>board[i]\<close> at every index, and the \<open>or [None]\<close> fallback.
\<close>

fun nonempty_pits :: "int list \<Rightarrow> int list \<Rightarrow> error + int list" where
  "nonempty_pits b [] = Inr []"
| "nonempty_pits b (i # rest) =
     (case getitem b i of
        Inl e \<Rightarrow> Inl e
      | Inr v \<Rightarrow>
          (case nonempty_pits b rest of
             Inl e \<Rightarrow> Inl e
           | Inr ms \<Rightarrow> Inr (if v > 0 then i # ms else ms)))"

definition valid_moves :: "KalahGame \<Rightarrow> int \<Rightarrow> error + move list" where
  "valid_moves g player =
     (let start = player * 7 in
      case nonempty_pits (board g) [start .. start + 6 - 1] of
        Inl e \<Rightarrow> Inl e
      | Inr moves \<Rightarrow> Inr (if moves = [] then [None] else map Some moves))"

text \<open>
  The sowing loop of \<open>perform_move\<close>: \<open>while stones > 0\<close>, advance the index modulo 14,
  \<open>continue\<close> on the opponent's store, otherwise drop one stone. The result is the
  board and the index of the last pit visited.
\<close>

function sow :: "int list \<Rightarrow> int \<Rightarrow> int \<Rightarrow> int \<Rightarrow> error + (int list \<times> int)" where
  "sow b index stones player =
     (if stones > 0 then
        (if (index + 1) mod 14 = (if player = 1 then 6 else 13)
         then sow b ((index + 1) mod 14) stones player
         else
           (case getitem b ((index + 1) mod 14) of
              Inl e \<Rightarrow> Inl e
            | Inr v \<Rightarrow>
                (case setitem b ((index + 1) mod 14) (v + 1) of
                   Inl e \<Rightarrow> Inl e
                 | Inr b' \<Rightarrow> sow b' ((index + 1) mod 14) (stones - 1) player)))
      else Inr (b, index))"
  by pat_completeness auto
termination
  by (relation "measure (\<lambda>(b, index, stones, player).
        2 * nat stones + (if (index + 1) mod 14 = (if player = 1 then 6 else 13) then 1 else 0))")
     auto

declare sow.simps [simp del]

text \<open>
  The capture rule. \<open>capture_applies\<close> is the board part of the condition
  (\<open>board[index] == 1 and board[12 - index] > 0\<close>, short-circuit); \<open>capture_into\<close> is the
  body: \<open>board[store] += board[index] + board[12 - index]\<close>, then both pits set to 0.
\<close>

definition capture_applies :: "int list \<Rightarrow> int \<Rightarrow> error + bool" where
  "capture_applies b index =
     (case getitem b index of
        Inl e \<Rightarrow> Inl e
      | Inr v \<Rightarrow>
          if v = 1 then
            (case getitem b (12 - index) of Inl e \<Rightarrow> Inl e | Inr w \<Rightarrow> Inr (w > 0))
          else Inr False)"

definition capture_into :: "int list \<Rightarrow> int \<Rightarrow> int \<Rightarrow> error + int list" where
  "capture_into b index store =
     (case getitem b store of
        Inl e \<Rightarrow> Inl e
      | Inr s \<Rightarrow>
     (case getitem b index of
        Inl e \<Rightarrow> Inl e
      | Inr v \<Rightarrow>
     (case getitem b (12 - index) of
        Inl e \<Rightarrow> Inl e
      | Inr w \<Rightarrow>
     (case setitem b store (s + (v + w)) of
        Inl e \<Rightarrow> Inl e
      | Inr b1 \<Rightarrow>
     (case setitem b1 index 0 of
        Inl e \<Rightarrow> Inl e
      | Inr b2 \<Rightarrow> setitem b2 (12 - index) 0)))))"

definition capture :: "int list \<Rightarrow> int \<Rightarrow> int \<Rightarrow> error + int list" where
  "capture b index player =
     (if 0 \<le> index \<and> index < 6 \<and> player = 0 then
        (case capture_applies b index of
           Inl e \<Rightarrow> Inl e
         | Inr ok \<Rightarrow> if ok then capture_into b index 6 else Inr b)
      else if 7 \<le> index \<and> index < 13 \<and> player = 1 then
        (case capture_applies b index of
           Inl e \<Rightarrow> Inl e
         | Inr ok \<Rightarrow> if ok then capture_into b index 13 else Inr b)
      else Inr b)"

text \<open>
  \<open>perform_move\<close> mutates the game in place; the model returns the new game. The
  sentinel move returns at once.
\<close>

definition perform_move :: "move \<Rightarrow> int \<Rightarrow> KalahGame \<Rightarrow> error + KalahGame" where
  "perform_move mv player g =
     (case mv of
        None \<Rightarrow> Inr g
      | Some index0 \<Rightarrow>
     (case getitem (board g) index0 of
        Inl e \<Rightarrow> Inl e
      | Inr stones \<Rightarrow>
     (case setitem (board g) index0 0 of
        Inl e \<Rightarrow> Inl e
      | Inr b1 \<Rightarrow>
     (case sow b1 index0 stones player of
        Inl e \<Rightarrow> Inl e
      | Inr (b2, index) \<Rightarrow>
     (case capture b2 index player of
        Inl e \<Rightarrow> Inl e
      | Inr b3 \<Rightarrow>
          Inr \<lparr>board = b3,
               current_player =
                 (if index \<noteq> (if player = 0 then 6 else 13) then 1 - player
                  else current_player g),
               last_pit = Some index\<rparr>)))))"

text \<open>The remaining accessors of \<open>KalahGame\<close>.\<close>

definition is_on_player_side :: "int \<Rightarrow> int \<Rightarrow> bool" where
  "is_on_player_side ending_pit player =
     (if player = 0 then 0 \<le> ending_pit \<and> ending_pit \<le> 6
      else 7 \<le> ending_pit \<and> ending_pit \<le> 13)"

definition get_seeds :: "KalahGame \<Rightarrow> int \<Rightarrow> error + int" where
  "get_seeds g ending_pit = getitem (board g) ending_pit"

text \<open>
  \<open>get_opposite_pit\<close> as written: the guard \<open>ending_pit == 6 and ending_pit == 13\<close>
  can never hold, so the result is always \<open>12 - ending_pit\<close>.
\<close>

definition get_opposite_pit :: "int \<Rightarrow> int option" where
  "get_opposite_pit ending_pit =
     (if ending_pit = 6 \<and> ending_pit = 13 then None else Some (12 - ending_pit))"

definition get_store :: "KalahGame \<Rightarrow> int \<Rightarrow> error + int" where
  "get_store g player = (if player = 0 then getitem (board g) 6 else getitem (board g) 13)"

text \<open>Slices never raise: \<open>board[:6]\<close> is \<open>take 6\<close>, \<open>board[7:13]\<close> is \<open>take 6 (drop 7 _)\<close>.\<close>

definition is_terminal :: "KalahGame \<Rightarrow> bool" where
  "is_terminal g =
     (sum_list (take 6 (board g)) = 0 \<or> sum_list (take 6 (drop 7 (board g))) = 0)"

definition result :: "KalahGame \<Rightarrow> int" where
  "result g = sum_list (take 7 (board g)) - sum_list (take 7 (drop 7 (board g)))"

section \<open>Facts about the board\<close>

lemma getitem_14:
  "length b = 14 \<Longrightarrow> 0 \<le> i \<Longrightarrow> i < 14 \<Longrightarrow> getitem b i = Inr (b ! nat i)"
  by (simp add: getitem_def py_index_def)

lemma setitem_14:
  "length b = 14 \<Longrightarrow> 0 \<le> i \<Longrightarrow> i < 14 \<Longrightarrow> setitem b i v = Inr (b[nat i := v])"
  by (simp add: setitem_def py_index_def)

text \<open>
  The states of play: the initial position, and every state the player to move reaches by
  a move \<open>valid_moves\<close> offers.
\<close>

inductive reachable :: "KalahGame \<Rightarrow> bool" where
  reachable_init: "reachable KalahGame_init"
| reachable_step:
    "reachable g \<Longrightarrow> valid_moves g (current_player g) = Inr ms \<Longrightarrow> mv \<in> set ms \<Longrightarrow>
     perform_move mv (current_player g) g = Inr g' \<Longrightarrow> reachable g'"

section \<open>The sentinel move and the conservation of stones\<close>

lemma py_index_less: "py_index xs i = Inr k \<Longrightarrow> k < length xs"
  by (auto simp: py_index_def Let_def split: if_splits)

lemma sum_list_update_int:
  "k < length xs \<Longrightarrow> sum_list (xs[k := v]) = sum_list xs - xs ! k + (v::int)"
proof (induction xs arbitrary: k)
  case Nil
  then show ?case by simp
next
  case (Cons x xs)
  then show ?case by (cases k) auto
qed

lemma sow_total:
  "length b = 14 \<Longrightarrow>
   \<exists>b' idx. sow b index stones player = Inr (b', idx) \<and> length b' = 14 \<and>
     sum_list b' = sum_list b + max stones 0 \<and> (if stones > 0 then 0 \<le> idx \<and> idx < 14 else idx = index)"
proof (induction b index stones player rule: sow.induct)
  case (1 b index stones player)
  let ?j = "(index + 1) mod 14"
  have j: "0 \<le> ?j" "?j < 14" by simp_all
  show ?case
  proof (cases "stones > 0")
    case False
    then show ?thesis using "1.prems" by (subst sow.simps) simp
  next
    case pos: True
    show ?thesis
    proof (cases "?j = (if player = 1 then 6 else 13)")
      case True
      from "1.IH"(1)[OF pos True "1.prems"] obtain b' idx where
        r: "sow b ?j stones player = Inr (b', idx)" "length b' = 14"
           "sum_list b' = sum_list b + max stones 0" "0 \<le> idx \<and> idx < 14"
        using pos by auto
      have "sow b index stones player = sow b ?j stones player"
        using pos True by (subst sow.simps) simp
      with r show ?thesis using pos by simp
    next
      case False
      have g: "getitem b ?j = Inr (b ! nat ?j)" using getitem_14[OF "1.prems" j] .
      have s: "setitem b ?j (b ! nat ?j + 1) = Inr (b[nat ?j := b ! nat ?j + 1])"
        using setitem_14[OF "1.prems" j] .
      let ?b1 = "b[nat ?j := b ! nat ?j + 1]"
      have len: "length ?b1 = 14" using "1.prems" by simp
      from "1.IH"(2)[OF pos False g s len] obtain b' idx where
        r: "sow ?b1 ?j (stones - 1) player = Inr (b', idx)" "length b' = 14"
           "sum_list b' = sum_list ?b1 + max (stones - 1) 0"
           "(if stones - 1 > 0 then 0 \<le> idx \<and> idx < 14 else idx = ?j)"
        by auto
      have "nat ?j < length b" using "1.prems" j by simp
      then have sm: "sum_list ?b1 = sum_list b + 1"
        by (simp add: sum_list_update_int)
      have "sow b index stones player = sow ?b1 ?j (stones - 1) player"
        using pos False g s by (subst sow.simps) simp
      with r sm j show ?thesis using pos by (auto split: if_splits)
    qed
  qed
qed



lemma capture_into_sum:
  assumes len: "length b = 14" and idx: "0 \<le> index" "index < 13" "index \<noteq> 6"
    and st: "store = 6 \<or> store = 13"
  shows "\<exists>b'. capture_into b index store = Inr b' \<and> length b' = 14 \<and> sum_list b' = sum_list b"
proof -
  have a: "0 \<le> 12 - index" "12 - index < 14" "0 \<le> store" "store < 14" "index < 14"
    using idx st by auto
  have ne: "nat index \<noteq> nat store" "nat (12 - index) \<noteq> nat store" "nat index \<noteq> nat (12 - index)"
    using idx st by auto
  have lt: "nat index < 14" "nat store < 14" "nat (12 - index) < 14"
    using idx st by auto
  show ?thesis
    using len a ne lt idx
    by (simp add: capture_into_def getitem_14 setitem_14 sum_list_update_int)
qed

lemma capture_applies_14:
  "length b = 14 \<Longrightarrow> 0 \<le> index \<Longrightarrow> index < 13 \<Longrightarrow> \<exists>ok. capture_applies b index = Inr ok"
  by (auto simp: capture_applies_def getitem_14)

lemma capture_sum:
  assumes "length b = 14"
  shows "\<exists>b'. capture b index player = Inr b' \<and> length b' = 14 \<and> sum_list b' = sum_list b"
proof -
  consider (p0) "0 \<le> index \<and> index < 6 \<and> player = 0"
    | (p1) "\<not> (0 \<le> index \<and> index < 6 \<and> player = 0)" "7 \<le> index \<and> index < 13 \<and> player = 1"
    | (none) "\<not> (0 \<le> index \<and> index < 6 \<and> player = 0)" "\<not> (7 \<le> index \<and> index < 13 \<and> player = 1)"
    by blast
  then show ?thesis
  proof cases
    case p0
    then obtain ok where ok: "capture_applies b index = Inr ok"
      using capture_applies_14[OF assms, of index] by auto
    from p0 capture_into_sum[OF assms, of index 6] 
    have "\<exists>b'. capture_into b index 6 = Inr b' \<and> length b' = 14 \<and> sum_list b' = sum_list b"
      by auto
    with p0 ok assms show ?thesis by (auto simp: capture_def)
  next
    case p1
    then obtain ok where ok: "capture_applies b index = Inr ok"
      using capture_applies_14[OF assms, of index] by auto
    from p1 capture_into_sum[OF assms, of index 13] 
    have "\<exists>b'. capture_into b index 13 = Inr b' \<and> length b' = 14 \<and> sum_list b' = sum_list b"
      by auto
    with p1 ok assms show ?thesis by (auto simp: capture_def)
  next
    case none
    then show ?thesis using assms by (auto simp: capture_def)
  qed
qed

lemma perform_move_sum:
  assumes len: "length (board g) = 14"
    and mv: "mv = None \<or> (\<exists>i v. mv = Some i \<and> getitem (board g) i = Inr v \<and> 0 \<le> v)"
  shows "\<exists>g'. perform_move mv player g = Inr g' \<and> length (board g') = 14 \<and>
           sum_list (board g') = sum_list (board g)"
proof (cases mv)
  case None
  then show ?thesis using len by (simp add: perform_move_def)
next
  case (Some i)
  with mv obtain v where v: "getitem (board g) i = Inr v" "0 \<le> v" by auto
  then obtain k where k: "py_index (board g) i = Inr k" "v = board g ! k"
    by (auto simp: getitem_def split: sum.splits)
  then have kl: "k < length (board g)" by (simp add: py_index_less)
  let ?b1 = "(board g)[k := 0]"
  have s: "setitem (board g) i 0 = Inr ?b1" using k by (simp add: setitem_def)
  have l1: "length ?b1 = 14" using len by simp
  have s1: "sum_list ?b1 = sum_list (board g) - v" using kl k by (simp add: sum_list_update_int)
  from sow_total[OF l1, of i v player] obtain b2 idx where
    b2: "sow ?b1 i v player = Inr (b2, idx)" "length b2 = 14" "sum_list b2 = sum_list ?b1 + max v 0"
    by blast
  from capture_sum[OF b2(2), of idx player] obtain b3 where
    b3: "capture b2 idx player = Inr b3" "length b3 = 14" "sum_list b3 = sum_list b2"
    by blast
  show ?thesis using Some v s b2 b3 s1 by (simp add: perform_move_def)
qed

lemma nonempty_pits_mem:
  "nonempty_pits b is = Inr ms \<Longrightarrow> i \<in> set ms \<Longrightarrow> \<exists>v. getitem b i = Inr v \<and> 0 < v"
proof (induction "is" arbitrary: ms)
  case Nil
  then show ?case by simp
next
  case (Cons j js)
  then show ?case by (auto split: sum.splits if_splits)
qed

lemma valid_moves_mem:
  assumes "valid_moves g player = Inr ms" "mv \<in> set ms"
  shows "mv = None \<or> (\<exists>i v. mv = Some i \<and> getitem (board g) i = Inr v \<and> 0 < v)"
  using assms nonempty_pits_mem
  by (fastforce simp: valid_moves_def Let_def split: sum.splits if_splits)

lemma reachable_board: "reachable g \<Longrightarrow> length (board g) = 14 \<and> sum_list (board g) = 48"
proof (induction rule: reachable.induct)
  case reachable_init
  show ?case by (simp add: KalahGame_init_def sum_list_replicate)
next
  case (reachable_step g ms mv g')
  from valid_moves_mem[OF reachable_step(2,3)]
  have "mv = None \<or> (\<exists>i v. mv = Some i \<and> getitem (board g) i = Inr v \<and> 0 \<le> v)"
    by fastforce
  from perform_move_sum[OF _ this, of "current_player g"] reachable_step show ?case by auto
qed

lemma nonempty_pits_total:
  "length b = 14 \<Longrightarrow> \<forall>i \<in> set is. 0 \<le> i \<and> i < 14 \<Longrightarrow> \<exists>ms. nonempty_pits b is = Inr ms"
  by (induction "is") (auto simp: getitem_14)

lemma valid_moves_total:
  assumes "length (board g) = 14" and "p = 0 \<or> p = 1"
  shows "\<exists>ms. valid_moves g p = Inr ms"
proof -
  have "\<forall>i \<in> set [p * 7 .. p * 7 + 6 - 1]. 0 \<le> i \<and> i < 14" using assms(2) by auto
  from nonempty_pits_total[OF assms(1) this] show ?thesis
    by (auto simp: valid_moves_def Let_def)
qed

lemma perform_move_player:
  "perform_move mv p g = Inr g' \<Longrightarrow> p = 0 \<or> p = 1 \<Longrightarrow>
   current_player g = 0 \<or> current_player g = 1 \<Longrightarrow>
   current_player g' = 0 \<or> current_player g' = 1"
  by (auto simp: perform_move_def split: option.splits sum.splits if_splits)

text \<open>
  C9. Applying the sentinel no-move, \<open>perform_move\<close> with move \<open>None\<close>, returns the game
  unchanged for every state and every player: the board, \<open>current_player\<close> and \<open>last_pit\<close>
  are the same, so the pass does not hand the turn to the opponent.
\<close>

theorem perform_move_None: "perform_move None player g = Inr g"
  by (simp add: perform_move_def)

text \<open>
  C10. In every reachable state, for every player and every move \<open>valid_moves\<close> offers
  that player, \<open>perform_move\<close> returns (it does not raise) and the sum of the fourteen
  board entries is the same after the move as before; every reachable state holds 48 stones.
\<close>

theorem perform_move_preserves_stones:
  assumes "reachable g" and "valid_moves g player = Inr ms" and "mv \<in> set ms"
  shows "\<exists>g'. perform_move mv player g = Inr g' \<and>
           sum_list (board g') = sum_list (board g) \<and> sum_list (board g') = 48"
proof -
  from valid_moves_mem[OF assms(2,3)]
  have "mv = None \<or> (\<exists>i v. mv = Some i \<and> getitem (board g) i = Inr v \<and> 0 \<le> v)"
    by fastforce
  from perform_move_sum[OF _ this, of player] reachable_board[OF assms(1)] show ?thesis by auto
qed

theorem perform_move_preserves_stones_witness:
  "reachable KalahGame_init \<and>
   valid_moves KalahGame_init 0 = Inr [Some 0, Some 1, Some 2, Some 3, Some 4, Some 5] \<and>
   (\<exists>g'. perform_move (Some 2) 0 KalahGame_init = Inr g' \<and>
      sum_list (board g') = sum_list (board KalahGame_init) \<and> sum_list (board g') = 48)"
proof -
  have vm: "valid_moves KalahGame_init 0 = Inr [Some 0, Some 1, Some 2, Some 3, Some 4, Some 5]"
    by code_simp
  have mem: "Some 2 \<in> set [Some 0, Some 1, Some 2, Some 3, Some 4, Some (5::int)]"
    by simp
  from perform_move_preserves_stones[OF reachable_init vm mem] vm reachable_init
  show ?thesis by blast
qed

section \<open>Kalahevaluate.py\<close>

text \<open>
  \<open>count_extra_moves\<close>: every valid move of the player is tried on a copy of the game; the
  loop counts the copies where the player is still the player to move.
\<close>

fun extra_moves_loop :: "KalahGame \<Rightarrow> int \<Rightarrow> int option list \<Rightarrow> int \<Rightarrow> error + int" where
  "extra_moves_loop g p [] extra_moves = Inr extra_moves"
| "extra_moves_loop g p (m # ms) extra_moves =
     (case perform_move m p g of
        Inl e \<Rightarrow> Inl e
      | Inr new_game \<Rightarrow>
          extra_moves_loop g p ms
            (if current_player new_game = p then extra_moves + 1 else extra_moves))"

definition count_extra_moves :: "KalahGame \<Rightarrow> int \<Rightarrow> error + int" where
  "count_extra_moves g p =
     (case valid_moves g p of Inl e \<Rightarrow> Inl e | Inr ms \<Rightarrow> extra_moves_loop g p ms 0)"

text \<open>
  \<open>count_potential_captures\<close>. After the sentinel move \<open>last_pit\<close> of the copy is what it
  was before; when it is still \<open>None\<close>, the comparison in \<open>is_on_player_side\<close> raises
  TypeError, as does \<open>get_seeds\<close> at \<open>None\<close>.
\<close>

fun potential_captures_loop :: "KalahGame \<Rightarrow> int \<Rightarrow> int option list \<Rightarrow> int \<Rightarrow> error + int" where
  "potential_captures_loop g p [] potential_captures = Inr potential_captures"
| "potential_captures_loop g p (m # ms) potential_captures =
     (case perform_move m p g of
        Inl e \<Rightarrow> Inl e
      | Inr new_game \<Rightarrow>
     (case last_pit new_game of
        None \<Rightarrow> Inl TypeError
      | Some ending_pit \<Rightarrow>
          if is_on_player_side ending_pit p then
            (case get_seeds new_game ending_pit of
               Inl e \<Rightarrow> Inl e
             | Inr s \<Rightarrow>
                 if s = 1 then
                   (case get_opposite_pit ending_pit of
                      None \<Rightarrow> Inl TypeError
                    | Some opposite_pit \<Rightarrow>
                        (case get_seeds new_game opposite_pit of
                           Inl e \<Rightarrow> Inl e
                         | Inr t \<Rightarrow>
                             potential_captures_loop g p ms
                               (if t > 0 then potential_captures + 1 else potential_captures)))
                 else potential_captures_loop g p ms potential_captures)
          else potential_captures_loop g p ms potential_captures))"

definition count_potential_captures :: "KalahGame \<Rightarrow> int \<Rightarrow> error + int" where
  "count_potential_captures g p =
     (case valid_moves g p of Inl e \<Rightarrow> Inl e | Inr ms \<Rightarrow> potential_captures_loop g p ms 0)"

text \<open>
  \<open>evaluate\<close>. The source computes in double precision; the model computes the same
  expression over the reals (the weights 0.7 and 0.2 are the decimal fractions).
  \<open>evaluate_weighted\<close> takes the three weights, \<open>evaluate\<close> has their default values.
\<close>

definition evaluate_weighted :: "KalahGame \<Rightarrow> int \<Rightarrow> real \<Rightarrow> real \<Rightarrow> real \<Rightarrow> error + real" where
  "evaluate_weighted g p weight1 weight2 weight3 =
     (let opponent = 1 - p in
      case get_store g p of Inl e \<Rightarrow> Inl e | Inr sp \<Rightarrow>
      case get_store g opponent of Inl e \<Rightarrow> Inl e | Inr so \<Rightarrow>
      case count_extra_moves g p of Inl e \<Rightarrow> Inl e | Inr ep \<Rightarrow>
      case count_extra_moves g opponent of Inl e \<Rightarrow> Inl e | Inr eo \<Rightarrow>
      case count_potential_captures g p of Inl e \<Rightarrow> Inl e | Inr cp \<Rightarrow>
      case count_potential_captures g opponent of Inl e \<Rightarrow> Inl e | Inr co \<Rightarrow>
        Inr (weight1 * real_of_int (sp - so) + weight2 * real_of_int (ep - eo)
             + weight3 * real_of_int (cp - co)))"

definition evaluate :: "KalahGame \<Rightarrow> int \<Rightarrow> error + real" where
  "evaluate g p = evaluate_weighted g p 1 (7 / 10) (2 / 10)"

section \<open>KalahMinimax.py\<close>

text \<open>
  Scores. The search compares the evaluator's scores with one another and with
  \<open>float('inf')\<close> and \<open>-float('inf')\<close>, and does no arithmetic on them: a score is a value
  of a linear order, extended by the two infinities.
\<close>

datatype 'a ext = NegInf | Fin 'a | PosInf

instantiation ext :: (linorder) linorder
begin

fun less_eq_ext :: "'a ext \<Rightarrow> 'a ext \<Rightarrow> bool" where
  "less_eq_ext NegInf y = True"
| "less_eq_ext (Fin a) NegInf = False"
| "less_eq_ext (Fin a) (Fin b) = (a \<le> b)"
| "less_eq_ext (Fin a) PosInf = True"
| "less_eq_ext PosInf NegInf = False"
| "less_eq_ext PosInf (Fin b) = False"
| "less_eq_ext PosInf PosInf = True"

definition less_ext :: "'a ext \<Rightarrow> 'a ext \<Rightarrow> bool" where
  "less_ext x y = (x \<le> y \<and> \<not> y \<le> x)"

instance
proof
  fix x y z :: "'a ext"
  show "(x < y) = (x \<le> y \<and> \<not> y \<le> x)" by (simp add: less_ext_def)
  show "x \<le> x" by (cases x) simp_all
  show "x \<le> y \<Longrightarrow> y \<le> z \<Longrightarrow> x \<le> z" by (cases x; cases y; cases z) simp_all
  show "x \<le> y \<Longrightarrow> y \<le> x \<Longrightarrow> x = y" by (cases x; cases y) simp_all
  show "x \<le> y \<or> y \<le> x" by (cases x; cases y) auto
qed

end

text \<open>
  The evaluator of the source is \<open>evaluate\<close>; in the model of the search it is a
  parameter \<open>ev\<close>, which may raise, so that what is proved of the search holds for every
  evaluator: for \<open>evaluate\<close> above, and for the double-precision function it idealises.
  \<open>leaf\<close> is the return at depth 0 and at a terminal state.
\<close>

definition leaf ::
  "(KalahGame \<Rightarrow> int \<Rightarrow> error + 'a) \<Rightarrow> KalahGame \<Rightarrow> int \<Rightarrow> error + ('a ext \<times> int option)" where
  "leaf ev game p = (case ev game p of Inl e \<Rightarrow> Inl e | Inr v \<Rightarrow> Inr (Fin v, None))"

text \<open>
  The two \<open>for\<close> loops of \<open>minimax\<close> over the valid moves, with \<open>break\<close> when
  \<open>beta <= alpha\<close>. \<open>search\<close> is the recursive call on the copy of the game after the
  move, one ply less deep. \<open>best_move\<close> starts as \<open>None\<close>.
\<close>

fun max_loop ::
  "(KalahGame \<Rightarrow> 'a ext \<Rightarrow> 'a ext \<Rightarrow> error + (('a::linorder) ext \<times> int option)) \<Rightarrow> KalahGame \<Rightarrow>
   int option list \<Rightarrow> 'a ext \<Rightarrow> 'a ext \<Rightarrow> 'a ext \<Rightarrow> int option \<Rightarrow> error + ('a ext \<times> int option)" where
  "max_loop search game [] alpha beta max_eval best_move = Inr (max_eval, best_move)"
| "max_loop search game (m # ms) alpha beta max_eval best_move =
     (case perform_move m (current_player game) game of
        Inl e \<Rightarrow> Inl e
      | Inr new_game \<Rightarrow>
          (case search new_game alpha beta of
             Inl e \<Rightarrow> Inl e
           | Inr (eval_score, _) \<Rightarrow>
               if beta \<le> max alpha eval_score then
                 Inr (if eval_score > max_eval then (eval_score, m) else (max_eval, best_move))
               else
                 max_loop search game ms (max alpha eval_score) beta
                   (if eval_score > max_eval then eval_score else max_eval)
                   (if eval_score > max_eval then m else best_move)))"

fun min_loop ::
  "(KalahGame \<Rightarrow> 'a ext \<Rightarrow> 'a ext \<Rightarrow> error + (('a::linorder) ext \<times> int option)) \<Rightarrow> KalahGame \<Rightarrow>
   int option list \<Rightarrow> 'a ext \<Rightarrow> 'a ext \<Rightarrow> 'a ext \<Rightarrow> int option \<Rightarrow> error + ('a ext \<times> int option)" where
  "min_loop search game [] alpha beta min_eval best_move = Inr (min_eval, best_move)"
| "min_loop search game (m # ms) alpha beta min_eval best_move =
     (case perform_move m (current_player game) game of
        Inl e \<Rightarrow> Inl e
      | Inr new_game \<Rightarrow>
          (case search new_game alpha beta of
             Inl e \<Rightarrow> Inl e
           | Inr (eval_score, _) \<Rightarrow>
               if min beta eval_score \<le> alpha then
                 Inr (if eval_score < min_eval then (eval_score, m) else (min_eval, best_move))
               else
                 min_loop search game ms alpha (min beta eval_score)
                   (if eval_score < min_eval then eval_score else min_eval)
                   (if eval_score < min_eval then m else best_move)))"

fun minimax ::
  "(KalahGame \<Rightarrow> int \<Rightarrow> error + 'a) \<Rightarrow> KalahGame \<Rightarrow> nat \<Rightarrow> ('a::linorder) ext \<Rightarrow> 'a ext \<Rightarrow> int \<Rightarrow>
   error + ('a ext \<times> int option)" where
  "minimax ev game 0 alpha beta minimax_player = leaf ev game minimax_player"
| "minimax ev game (Suc d) alpha beta minimax_player =
     (if is_terminal game then leaf ev game minimax_player
      else
        (case valid_moves game (current_player game) of
           Inl e \<Rightarrow> Inl e
         | Inr ms \<Rightarrow>
             if current_player game = minimax_player then
               max_loop (\<lambda>new_game a b. minimax ev new_game d a b minimax_player)
                 game ms alpha beta NegInf None
             else
               min_loop (\<lambda>new_game a b. minimax ev new_game d a b minimax_player)
                 game ms alpha beta PosInf None))"

text \<open>\<open>minimax_move\<close>, the wrapper the rest of the project calls.\<close>

definition minimax_move :: "KalahGame \<Rightarrow> nat \<Rightarrow> error + int option" where
  "minimax_move game depth =
     (case minimax evaluate game depth NegInf PosInf (current_player game) of
        Inl e \<Rightarrow> Inl e
      | Inr (_, best_move) \<Rightarrow> Inr best_move)"

text \<open>
  The brute-force search of the specification: the same recursion over all valid moves
  to the same depth, with the evaluator at depth 0 and at terminal states, the maximum
  of all children's values when the optimizing player is to move, the minimum otherwise,
  and no window.
\<close>

fun child_values ::
  "(KalahGame \<Rightarrow> error + 'v) \<Rightarrow> KalahGame \<Rightarrow> int option list \<Rightarrow> error + 'v list" where
  "child_values value_of game [] = Inr []"
| "child_values value_of game (m # ms) =
     (case perform_move m (current_player game) game of
        Inl e \<Rightarrow> Inl e
      | Inr new_game \<Rightarrow>
          (case value_of new_game of
             Inl e \<Rightarrow> Inl e
           | Inr v \<Rightarrow>
               (case child_values value_of game ms of
                  Inl e \<Rightarrow> Inl e
                | Inr vs \<Rightarrow> Inr (v # vs))))"

fun full_width_search ::
  "(KalahGame \<Rightarrow> int \<Rightarrow> error + 'a) \<Rightarrow> KalahGame \<Rightarrow> nat \<Rightarrow> int \<Rightarrow> error + ('a::linorder) ext" where
  "full_width_search ev game 0 p = (case ev game p of Inl e \<Rightarrow> Inl e | Inr v \<Rightarrow> Inr (Fin v))"
| "full_width_search ev game (Suc d) p =
     (if is_terminal game then (case ev game p of Inl e \<Rightarrow> Inl e | Inr v \<Rightarrow> Inr (Fin v))
      else
        (case valid_moves game (current_player game) of
           Inl e \<Rightarrow> Inl e
         | Inr ms \<Rightarrow>
             (case child_values (\<lambda>new_game. full_width_search ev new_game d p) game ms of
                Inl e \<Rightarrow> Inl e
              | Inr vs \<Rightarrow>
                  Inr (if current_player game = p then fold max vs NegInf
                       else fold min vs PosInf))))"

subsection \<open>Pruning does not change the score\<close>

text \<open>
  \<open>bounds alpha beta V v\<close>: what a search with the window \<open>(alpha, beta)\<close> returns, \<open>v\<close>,
  says about the full-width value \<open>V\<close>. At or below \<open>alpha\<close> it is an upper bound of \<open>V\<close>,
  at or above \<open>beta\<close> a lower bound, and strictly inside the window it is \<open>V\<close>.
\<close>

definition bounds :: "('a::linorder) \<Rightarrow> 'a \<Rightarrow> 'a \<Rightarrow> 'a \<Rightarrow> bool" where
  "bounds alpha beta V v \<longleftrightarrow>
     (v \<le> alpha \<longrightarrow> V \<le> v) \<and> (beta \<le> v \<longrightarrow> v \<le> V) \<and> (alpha < v \<and> v < beta \<longrightarrow> v = V)"

lemma fold_max_ge: "(s::'a::linorder) \<le> fold max xs s"
proof (induction xs arbitrary: s)
  case Nil
  show ?case by simp
next
  case (Cons x xs)
  have "s \<le> max x s" by simp
  also have "max x s \<le> fold max xs (max x s)" by (rule Cons.IH)
  finally show ?case by simp
qed

lemma fold_min_le: "fold min xs s \<le> (s::'a::linorder)"
proof (induction xs arbitrary: s)
  case Nil
  show ?case by simp
next
  case (Cons x xs)
  have "fold min xs (min x s) \<le> min x s" by (rule Cons.IH)
  also have "min x s \<le> s" by simp
  finally show ?case by simp
qed

lemma max_loop_bounds:
  assumes srch: "\<And>g' V a b. value_of g' = Inr V \<Longrightarrow> a < b \<Longrightarrow>
            \<exists>v bm. search g' a b = Inr (v, bm) \<and> bounds a b V v"
  shows "child_values value_of game ms = Inr vs \<Longrightarrow> alpha < beta \<Longrightarrow>
         alpha = max alpha0 me \<Longrightarrow> (me \<le> alpha0 \<longrightarrow> M \<le> me) \<Longrightarrow> (alpha0 < me \<longrightarrow> me = M) \<Longrightarrow>
         \<exists>v bm. max_loop search game ms alpha beta me best = Inr (v, bm) \<and>
           bounds alpha0 beta (fold max vs M) v"
proof (induction ms arbitrary: vs alpha me best M)
  case Nil
  then show ?case by (auto simp: bounds_def)
next
  case (Cons m ms)
  from Cons.prems(1) obtain g' V1 vs' where
    pm: "perform_move m (current_player game) game = Inr g'"
    and v1: "value_of g' = Inr V1"
    and cv: "child_values value_of game ms = Inr vs'" and vs: "vs = V1 # vs'"
    by (auto split: sum.splits)
  from srch[OF v1 Cons.prems(2)] obtain v bm where
    s: "search g' alpha beta = Inr (v, bm)" and w: "bounds alpha beta V1 v"
    by auto
  note I1 = Cons.prems(3) and I3 = Cons.prems(4) and I4 = Cons.prems(5) and ab = Cons.prems(2)
  show ?case
  proof (cases "beta \<le> max alpha v")
    case True
    with ab have bv: "beta \<le> v" by (auto simp: max_def split: if_splits)
    with w have "v \<le> V1" by (simp add: bounds_def)
    also have "V1 \<le> max V1 M" by simp
    also have "max V1 M \<le> fold max vs' (max V1 M)" by (rule fold_max_ge)
    finally have le: "v \<le> fold max vs M" using vs by simp
    have "me \<le> alpha" using I1 by simp
    with ab bv have gt: "v > me" by auto
    have "alpha0 \<le> alpha" using I1 by simp
    with ab bv have a0: "alpha0 < v" by auto
    have "max_loop search game (m # ms) alpha beta me best = Inr (v, m)"
      using pm s True gt by simp
    moreover have "bounds alpha0 beta (fold max vs M) v"
      using le a0 bv by (auto simp: bounds_def)
    ultimately show ?thesis by blast
  next
    case False
    let ?me = "if v > me then v else me"
    let ?best = "if v > me then m else best"
    let ?alpha = "max alpha v"
    have step: "max_loop search game (m # ms) alpha beta me best
                  = max_loop search game ms ?alpha beta ?me ?best"
      using pm s False by simp
    have ab': "?alpha < beta" using False by (simp only: not_le)
    have J1: "?alpha = max alpha0 ?me" using I1 by (auto simp: max_def)
    have J3: "?me \<le> alpha0 \<longrightarrow> max V1 M \<le> ?me"
      using I1 I3 I4 w ab by (auto simp: bounds_def max_def split: if_splits)
    have J4: "alpha0 < ?me \<longrightarrow> ?me = max V1 M"
      using I1 I3 I4 w ab ab' by (auto simp: bounds_def max_def split: if_splits)
    from Cons.IH[where best = ?best, OF cv ab' J1 J3 J4]
    obtain v' bm' where
      "max_loop search game ms ?alpha beta ?me ?best = Inr (v', bm')"
      "bounds alpha0 beta (fold max vs' (max V1 M)) v'"
      by auto
    with step vs show ?thesis by simp
  qed
qed


lemma min_loop_bounds:
  assumes srch: "\<And>g' V a b. value_of g' = Inr V \<Longrightarrow> a < b \<Longrightarrow>
            \<exists>v bm. search g' a b = Inr (v, bm) \<and> bounds a b V v"
  shows "child_values value_of game ms = Inr vs \<Longrightarrow> alpha < beta \<Longrightarrow>
         beta = min beta0 me \<Longrightarrow> (beta0 \<le> me \<longrightarrow> me \<le> M) \<Longrightarrow> (me < beta0 \<longrightarrow> me = M) \<Longrightarrow>
         \<exists>v bm. min_loop search game ms alpha beta me best = Inr (v, bm) \<and>
           bounds alpha beta0 (fold min vs M) v"
proof (induction ms arbitrary: vs beta me best M)
  case Nil
  then show ?case by (auto simp: bounds_def)
next
  case (Cons m ms)
  from Cons.prems(1) obtain g' V1 vs' where
    pm: "perform_move m (current_player game) game = Inr g'"
    and v1: "value_of g' = Inr V1"
    and cv: "child_values value_of game ms = Inr vs'" and vs: "vs = V1 # vs'"
    by (auto split: sum.splits)
  from srch[OF v1 Cons.prems(2)] obtain v bm where
    s: "search g' alpha beta = Inr (v, bm)" and w: "bounds alpha beta V1 v"
    by auto
  note I1 = Cons.prems(3) and I3 = Cons.prems(4) and I4 = Cons.prems(5) and ab = Cons.prems(2)
  show ?case
  proof (cases "min beta v \<le> alpha")
    case True
    with ab have va: "v \<le> alpha" by (auto simp: min_def split: if_splits)
    have "fold min vs' (min V1 M) \<le> min V1 M" by (rule fold_min_le)
    also have "min V1 M \<le> V1" by simp
    also have "V1 \<le> v" using w va by (simp add: bounds_def)
    finally have le: "fold min vs M \<le> v" using vs by simp
    have "beta \<le> me" using I1 by simp
    with ab va have lt: "v < me" by auto
    have "beta \<le> beta0" using I1 by simp
    with ab va have b0: "v < beta0" by auto
    have "min_loop search game (m # ms) alpha beta me best = Inr (v, m)"
      using pm s True lt by simp
    moreover have "bounds alpha beta0 (fold min vs M) v"
      using le b0 va by (auto simp: bounds_def)
    ultimately show ?thesis by blast
  next
    case False
    let ?me = "if v < me then v else me"
    let ?best = "if v < me then m else best"
    let ?beta = "min beta v"
    have step: "min_loop search game (m # ms) alpha beta me best
                  = min_loop search game ms alpha ?beta ?me ?best"
      using pm s False by simp
    have ab': "alpha < ?beta" using False by (simp only: not_le)
    have J1: "?beta = min beta0 ?me" using I1 by (auto simp: min_def)
    have J3: "beta0 \<le> ?me \<longrightarrow> ?me \<le> min V1 M"
      using I1 I3 I4 w ab by (auto simp: bounds_def min_def split: if_splits)
    have J4: "?me < beta0 \<longrightarrow> ?me = min V1 M"
      using I1 I3 I4 w ab ab' by (auto simp: bounds_def min_def split: if_splits)
    from Cons.IH[where best = ?best, OF cv ab' J1 J3 J4]
    obtain v' bm' where
      "min_loop search game ms alpha ?beta ?me ?best = Inr (v', bm')"
      "bounds alpha beta0 (fold min vs' (min V1 M)) v'"
      by auto
    with step vs show ?thesis by simp
  qed
qed

lemma NegInf_least [simp]: "NegInf \<le> (x :: 'a::linorder ext)"
  by simp

lemma PosInf_greatest [simp]: "(x :: 'a::linorder ext) \<le> PosInf"
  by (cases x) simp_all

lemma minimax_bounds:
  "full_width_search ev game d p = Inr V \<Longrightarrow> alpha < beta \<Longrightarrow>
   \<exists>v bm. minimax ev game d alpha beta p = Inr (v, bm) \<and> bounds alpha beta V v"
proof (induction d arbitrary: game V alpha beta)
  case 0
  then show ?case by (auto simp: leaf_def bounds_def split: sum.splits)
next
  case (Suc d)
  show ?case
  proof (cases "is_terminal game")
    case True
    with Suc.prems show ?thesis by (auto simp: leaf_def bounds_def split: sum.splits)
  next
    case False
    from Suc.prems(1) False obtain ms vs where
      vm: "valid_moves game (current_player game) = Inr ms"
      and cv: "child_values (\<lambda>g. full_width_search ev g d p) game ms = Inr vs"
      and V: "V = (if current_player game = p then fold max vs NegInf else fold min vs PosInf)"
      by (auto split: sum.splits)
    have srch: "\<exists>v bm. minimax ev g' d a b p = Inr (v, bm) \<and> bounds a b V' v"
      if "full_width_search ev g' d p = Inr V'" "a < b" for g' V' a b
      using Suc.IH[OF that] .
    show ?thesis
    proof (cases "current_player game = p")
      case True
      have a: "alpha = max alpha NegInf" by (simp add: max_absorb1)
      have b: "NegInf \<le> alpha \<longrightarrow> (NegInf :: 'a ext) \<le> NegInf" by simp
      have c: "alpha < NegInf \<longrightarrow> (NegInf :: 'a ext) = NegInf" by simp
      from max_loop_bounds[where search = "\<lambda>g a b. minimax ev g d a b p"
          and value_of = "\<lambda>g. full_width_search ev g d p" and best = None,
          OF srch cv Suc.prems(2) a b c]
      show ?thesis using False vm True V by simp
    next
      case np: False
      have a: "beta = min beta PosInf" by (simp add: min_absorb1)
      have b: "beta \<le> PosInf \<longrightarrow> (PosInf :: 'a ext) \<le> PosInf" by simp
      have c: "PosInf < beta \<longrightarrow> (PosInf :: 'a ext) = PosInf" by simp
      from min_loop_bounds[where search = "\<lambda>g a b. minimax ev g d a b p"
          and value_of = "\<lambda>g. full_width_search ev g d p" and best = None,
          OF srch cv Suc.prems(2) a b c]
      show ?thesis using False vm np V by simp
    qed
  qed
qed

text \<open>
  C1. For every evaluator, every game state, every depth and every optimizing player:
  when the brute-force full-width search of the state to that depth returns a score,
  \<open>minimax\<close> with the window from minus infinity to plus infinity returns that same
  score. (The full-width search returns whenever no call in it raises: see
  \<open>full_width_search_total\<close> below.)
\<close>

theorem minimax_equals_full_width_search:
  assumes "full_width_search ev game d p = Inr V"
  shows "\<exists>best_move. minimax ev game d NegInf PosInf p = Inr (V, best_move)"
proof -
  have lt: "(NegInf :: 'a ext) < PosInf" by (simp add: less_ext_def)
  from minimax_bounds[OF assms lt] obtain v bm where
    r: "minimax ev game d NegInf PosInf p = Inr (v, bm)" and b: "bounds NegInf PosInf V v"
    by blast
  have "v = V"
  proof (cases "v = NegInf")
    case True
    with b have "V \<le> NegInf" by (simp add: bounds_def)
    then have "V = NegInf" by (cases V) simp_all
    with True show ?thesis by simp
  next
    case nv: False
    show ?thesis
    proof (cases "v = PosInf")
      case True
      with b have "PosInf \<le> V" by (simp add: bounds_def)
      then have "V = PosInf" by (cases V) simp_all
      with True show ?thesis by simp
    next
      case False
      with nv have "NegInf < v" "v < PosInf" by (cases v; simp add: less_ext_def)+
      with b show ?thesis by (simp add: bounds_def)
    qed
  qed
  with r show ?thesis by blast
qed

lemma start_full_width: "full_width_search evaluate KalahGame_init 2 0 = Inr (Fin (11 / 10))"
  by code_simp

theorem minimax_equals_full_width_search_witness:
  "full_width_search evaluate KalahGame_init 2 0 = Inr (Fin (11 / 10)) \<and>
   (\<exists>best_move. minimax evaluate KalahGame_init 2 NegInf PosInf 0 = Inr (Fin (11 / 10), best_move))"
  using minimax_equals_full_width_search[OF start_full_width] start_full_width by blast

text \<open>
  The full-width search returns a score on every board of 14 pits with player 0 or 1 to
  move, for every evaluator that returns on every state.
\<close>

lemma child_values_total:
  assumes rec: "\<And>g'. length (board g') = 14 \<Longrightarrow> current_player g' = 0 \<or> current_player g' = 1 \<Longrightarrow>
                  \<exists>V. value_of g' = Inr V"
    and len: "length (board game) = 14"
    and pl: "current_player game = 0 \<or> current_player game = 1"
    and vm: "valid_moves game (current_player game) = Inr all_ms"
  shows "set ms \<subseteq> set all_ms \<Longrightarrow> \<exists>vs. child_values value_of game ms = Inr vs"
proof (induction ms)
  case Nil
  show ?case by simp
next
  case (Cons m ms)
  then have mem: "m \<in> set all_ms" by simp
  from valid_moves_mem[OF vm mem]
  have "m = None \<or> (\<exists>i v. m = Some i \<and> getitem (board game) i = Inr v \<and> 0 \<le> v)"
    by fastforce
  from perform_move_sum[OF len this, of "current_player game"] obtain g' where
    pm: "perform_move m (current_player game) game = Inr g'" and l: "length (board g') = 14"
    by blast
  from perform_move_player[OF pm pl pl] have "current_player g' = 0 \<or> current_player g' = 1" .
  from rec[OF l this] obtain V where V: "value_of g' = Inr V" by blast
  from Cons have "\<exists>vs. child_values value_of game ms = Inr vs" by simp
  with pm V show ?case by auto
qed

lemma full_width_search_total:
  assumes ev: "\<And>g'. \<exists>v. ev g' p = Inr v"
  shows "length (board game) = 14 \<Longrightarrow> current_player game = 0 \<or> current_player game = 1 \<Longrightarrow>
         \<exists>V. full_width_search ev game d p = Inr V"
proof (induction d arbitrary: game)
  case 0
  from ev[of game] show ?case by auto
next
  case (Suc d)
  show ?case
  proof (cases "is_terminal game")
    case True
    with ev[of game] show ?thesis by auto
  next
    case False
    from valid_moves_total[OF Suc.prems] obtain ms where
      vm: "valid_moves game (current_player game) = Inr ms" by blast
    from child_values_total[where value_of = "\<lambda>g. full_width_search ev g d p",
        OF Suc.IH Suc.prems vm subset_refl]
    obtain vs where "child_values (\<lambda>g. full_width_search ev g d p) game ms = Inr vs" by blast
    with False vm show ?thesis by simp
  qed
qed

section \<open>UNMINIMAX.py\<close>

text \<open>
  The transposition table \<open>T\<close> maps a state key to a dictionary from actions to values.
  The evaluator is the constructor argument \<open>eval_fn\<close>: a parameter \<open>ev\<close>, which may raise.
  Its values only need to be ordered.
\<close>

type_synonym 'v table = "state_key \<Rightarrow> (int option \<times> 'v) list option"

text \<open>
  Python's \<open>max\<close> and \<open>min\<close> with a key return the first element among those with the best
  key: the scan replaces its candidate only on a strict improvement.
\<close>

fun first_max :: "('a \<times> 'v::linorder) \<Rightarrow> ('a \<times> 'v) list \<Rightarrow> 'a \<times> 'v" where
  "first_max best [] = best"
| "first_max best (x # xs) = first_max (if snd x > snd best then x else best) xs"

fun first_min :: "('a \<times> 'v::linorder) \<Rightarrow> ('a \<times> 'v) list \<Rightarrow> 'a \<times> 'v" where
  "first_min best [] = best"
| "first_min best (x # xs) = first_min (if snd x < snd best then x else best) xs"

text \<open>
  \<open>best_action\<close>: \<open>self.T[state_key]\<close> raises KeyError for a state without entry, and \<open>max\<close>
  or \<open>min\<close> of an empty list raises ValueError.
\<close>

definition best_action :: "('v::linorder) table \<Rightarrow> state_key \<Rightarrow> int \<Rightarrow> error + int option" where
  "best_action T state_key p =
     (case T state_key of
        None \<Rightarrow> Inl KeyError
      | Some entry \<Rightarrow>
          (case entry of
             [] \<Rightarrow> Inl ValueError
           | x # xs \<Rightarrow> Inr (fst (if p = 0 then first_max x xs else first_min x xs))))"

text \<open>
  The loop that creates the entry of an unseen state: every valid action is applied to a
  copy of the state and the result is evaluated. Assigning to a dictionary key keeps the
  key's position if it is present and appends it otherwise: \<open>AList.update\<close>.
\<close>

fun init_children ::
  "(KalahGame \<Rightarrow> int \<Rightarrow> error + 'v) \<Rightarrow> KalahGame \<Rightarrow> int \<Rightarrow> int option list \<Rightarrow>
   (int option \<times> 'v) list \<Rightarrow> error + (int option \<times> 'v) list" where
  "init_children ev s p [] entry = Inr entry"
| "init_children ev s p (a # as) entry =
     (case perform_move a (current_player s) s of
        Inl e \<Rightarrow> Inl e
      | Inr s_prime \<Rightarrow>
          (case ev s_prime p of
             Inl e \<Rightarrow> Inl e
           | Inr v \<Rightarrow> init_children ev s p as (AList.update a v entry)))"

text \<open>The last two lines of the iteration: \<open>return self.T[state_key][best_a]\<close>.\<close>

definition best_value :: "('v::linorder) table \<Rightarrow> state_key \<Rightarrow> int \<Rightarrow> error + ('v \<times> 'v table)" where
  "best_value T state_key p =
     (case best_action T state_key p of
        Inl e \<Rightarrow> Inl e
      | Inr best_a \<Rightarrow>
          (case T state_key of
             None \<Rightarrow> Inl KeyError
           | Some entry \<Rightarrow>
               (case map_of entry best_a of None \<Rightarrow> Inl KeyError | Some v \<Rightarrow> Inr (v, T))))"

text \<open>
  \<open>unbounded_minimax_iteration\<close>. The recursion follows best actions and need not end
  (a state whose best action is the sentinel move leads to itself), so the model is a
  partial function: no result is \<open>None\<close>, an exception is \<open>Some (Inl e)\<close>. The table is
  passed in and returned with the value.
\<close>

partial_function (option) unbounded_minimax_iteration ::
  "(KalahGame \<Rightarrow> int \<Rightarrow> error + 'v) \<Rightarrow> ('v::linorder) table \<Rightarrow> KalahGame \<Rightarrow> int \<Rightarrow>
   (error + ('v \<times> 'v table)) option" where
  "unbounded_minimax_iteration ev T s p =
     (if is_terminal s then
        Some (case ev s p of Inl e \<Rightarrow> Inl e | Inr v \<Rightarrow> Inr (v, T))
      else
        (case T (from_board_to_state s) of
           None \<Rightarrow>
             Some (case valid_moves s (current_player s) of
                     Inl e \<Rightarrow> Inl e
                   | Inr ms \<Rightarrow>
                       (case init_children ev s p ms [] of
                          Inl e \<Rightarrow> Inl e
                        | Inr entry \<Rightarrow>
                            best_value (T(from_board_to_state s \<mapsto> entry))
                              (from_board_to_state s) p))
         | Some known \<Rightarrow>
             (case best_action T (from_board_to_state s) p of
                Inl e \<Rightarrow> Some (Inl e)
              | Inr best_a \<Rightarrow>
                  (case perform_move best_a (current_player s) s of
                     Inl e \<Rightarrow> Some (Inl e)
                   | Inr s_prime \<Rightarrow>
                       Option.bind (unbounded_minimax_iteration ev T s_prime p)
                         (\<lambda>r. case r of
                                Inl e \<Rightarrow> Some (Inl e)
                              | Inr (v, T1) \<Rightarrow>
                                  (case T1 (from_board_to_state s) of
                                     None \<Rightarrow> Some (Inl KeyError)
                                   | Some entry \<Rightarrow>
                                       Some (best_value
                                         (T1(from_board_to_state s \<mapsto> AList.update best_a v entry))
                                         (from_board_to_state s) p)))))))"

declare unbounded_minimax_iteration.simps [code]

text \<open>
  \<open>run\<close>. The loop runs while the clock allows; the number \<open>n\<close> of iterations it runs is
  what the clock decides, and is a parameter of the model. It is 0 when the budget has
  elapsed at the first test (a budget of 0 seconds, for one).
\<close>

primrec iterations ::
  "(KalahGame \<Rightarrow> int \<Rightarrow> error + 'v) \<Rightarrow> nat \<Rightarrow> ('v::linorder) table \<Rightarrow> KalahGame \<Rightarrow> int \<Rightarrow>
   (error + 'v table) option" where
  "iterations ev 0 T root_game p = Some (Inr T)"
| "iterations ev (Suc n) T root_game p =
     Option.bind (unbounded_minimax_iteration ev T root_game p)
       (\<lambda>r. case r of
              Inl e \<Rightarrow> Some (Inl e)
            | Inr (v, T1) \<Rightarrow> iterations ev n T1 root_game p)"

definition run ::
  "(KalahGame \<Rightarrow> int \<Rightarrow> error + 'v) \<Rightarrow> ('v::linorder) table \<Rightarrow> KalahGame \<Rightarrow> int \<Rightarrow> nat \<Rightarrow>
   (error + int option) option" where
  "run ev T root_game p n =
     Option.bind (iterations ev n T root_game p)
       (\<lambda>r. case r of
              Inl e \<Rightarrow> Some (Inl e)
            | Inr T1 \<Rightarrow> Some (best_action T1 (from_board_to_state root_game) p))"

subsection \<open>A position one move from the end\<close>





lemma last_stone_child_terminal:
  "is_terminal \<lparr>board = [0,0,0,0,0,0, 1, 1,0,0,0,0,0, 0], current_player = 0, last_pit = Some 6\<rparr>"
  by code_simp

lemma last_stone_child_value:
  "evaluate \<lparr>board = [0,0,0,0,0,0, 1, 1,0,0,0,0,0, 0], current_player = 0, last_pit = Some 6\<rparr> 0
     = Inr (19 / 10)"
  by code_simp




subsection \<open>Growth of the table\<close>













subsection \<open>The move returned by \<open>run\<close>\<close>

text \<open>
  C7. The claim is that \<open>run\<close> returns a move for every root state and every time budget,
  without an exception. The code does not: when the loop runs no iteration, the root has
  no entry in a fresh table and \<open>best_action\<close> raises KeyError, for every evaluator, root
  and player; and on a terminal root no number of iterations creates the entry (here
  three iterations on the terminal position reached above).
\<close>

theorem run_without_root_entry:
  "run ev Map.empty root_game p 0 = Some (Inl KeyError) \<and>
   run evaluate Map.empty
     \<lparr>board = [0,0,0,0,0,0, 1, 1,0,0,0,0,0, 0], current_player = 0, last_pit = Some 6\<rparr> 0 3
   = Some (Inl KeyError)"
proof -
  have a: "run ev Map.empty root_game p 0 = Some (Inl KeyError)"
    by (simp add: run_def best_action_def)
  have b: "run evaluate Map.empty
     \<lparr>board = [0,0,0,0,0,0, 1, 1,0,0,0,0,0, 0], current_player = 0, last_pit = Some 6\<rparr> 0 3
   = Some (Inl KeyError)"
    by (simp add: run_def numeral_3_eq_3 unbounded_minimax_iteration.simps[of _ _ "\<lparr>board = [0,0,0,0,0,0, 1, 1,0,0,0,0,0, 0], current_player = 0, last_pit = Some 6\<rparr>"]
      last_stone_child_terminal last_stone_child_value best_action_def)
  from a b show ?thesis by blast
qed

section \<open>NRPA.py\<close>

text \<open>
  The policy is a dictionary from (state, move) to a weight; \<open>policy.get(key, 0)\<close> is
  \<open>policy_get\<close>. Weights and probabilities are doubles in the source and real numbers in
  the model: the model computes the same expressions in exact arithmetic, with the real
  exponential function.
\<close>

type_synonym policy = "state_key \<times> int option \<Rightarrow> real option"

definition policy_get :: "policy \<Rightarrow> state_key \<times> int option \<Rightarrow> real" where
  "policy_get pol k = (case pol k of None \<Rightarrow> 0 | Some w \<Rightarrow> w)"

text \<open>
  \<open>softmax_probs\<close>. \<open>max\<close> of an empty list raises ValueError. The test \<open>total == 0\<close> and
  its uniform fallback are kept as written.
\<close>

definition softmax_probs :: "policy \<Rightarrow> KalahGame \<Rightarrow> int option list \<Rightarrow> error + real list" where
  "softmax_probs pol g moves =
     (let state = from_board_to_state g;
          weights = map (\<lambda>m. policy_get pol (state, m)) moves
      in if weights = [] then Inl ValueError
         else
           (let max_weight = Max (set weights);
                exp_weights = map (\<lambda>w. exp (w - max_weight)) weights;
                total = sum_list exp_weights
            in if total = 0
               then Inr (replicate (length moves) (1 / real (length moves)))
               else Inr (map (\<lambda>w. w / total) exp_weights)))"

text \<open>
  \<open>adapt\<close>. \<open>adapt_moves\<close> is the inner loop over \<open>enumerate(valid_moves)\<close>, with the index
  \<open>i\<close> into \<open>probs\<close>; \<open>state_game\<close> is the game built from the saved state. The
  probabilities are computed once for each pair of the sequence, before the inner loop
  changes the weights.
\<close>

fun adapt_moves ::
  "policy \<Rightarrow> state_key \<Rightarrow> int option \<Rightarrow> real list \<Rightarrow> int \<Rightarrow> int option list \<Rightarrow> error + policy" where
  "adapt_moves pol state mv probs i [] = Inr pol"
| "adapt_moves pol state mv probs i (m # ms) =
     (if m = mv then
        adapt_moves (pol((state, m) \<mapsto> policy_get pol (state, m) + 1)) state mv probs (i + 1) ms
      else
        (case getitem probs i of
           Inl e \<Rightarrow> Inl e
         | Inr pr \<Rightarrow>
             adapt_moves (pol((state, m) \<mapsto> policy_get pol (state, m) - pr))
               state mv probs (i + 1) ms))"

definition state_game :: "state_key \<Rightarrow> KalahGame" where
  "state_game state = \<lparr>board = fst state, current_player = snd state, last_pit = None\<rparr>"

fun adapt :: "policy \<Rightarrow> (int option \<times> state_key) list \<Rightarrow> error + policy" where
  "adapt pol [] = Inr pol"
| "adapt pol ((mv, state) # rest) =
     (case valid_moves (state_game state) (current_player (state_game state)) of
        Inl e \<Rightarrow> Inl e
      | Inr ms \<Rightarrow>
          (case softmax_probs pol (state_game state) ms of
             Inl e \<Rightarrow> Inl e
           | Inr probs \<Rightarrow>
               (case adapt_moves pol state mv probs 0 ms of
                  Inl e \<Rightarrow> Inl e
                | Inr pol' \<Rightarrow> adapt pol' rest)))"

subsection \<open>The probabilities of \<open>softmax_probs\<close>\<close>



lemma softmax_probs_length:
  assumes "moves \<noteq> []"
  shows "\<exists>probs. softmax_probs pol g moves = Inr probs \<and> length probs = length moves"
  using assms by (auto simp: softmax_probs_def Let_def)



subsection \<open>One step of \<open>adapt\<close>\<close>

lemma nonempty_pits_distinct:
  "nonempty_pits b is = Inr ms \<Longrightarrow> distinct is \<Longrightarrow> distinct ms \<and> set ms \<subseteq> set is"
proof (induction "is" arbitrary: ms)
  case Nil
  then show ?case by simp
next
  case (Cons i rest)
  then show ?case by (fastforce split: sum.splits if_splits)
qed

lemma valid_moves_distinct:
  assumes "valid_moves g p = Inr ms"
  shows "distinct ms \<and> ms \<noteq> []"
proof -
  from assms obtain pits where
    p: "nonempty_pits (board g) [p * 7 .. p * 7 + 6 - 1] = Inr pits"
    and ms: "ms = (if pits = [] then [None] else map Some pits)"
    by (auto simp: valid_moves_def Let_def split: sum.splits)
  from nonempty_pits_distinct[OF p] have "distinct pits" by simp
  with ms show ?thesis by (auto simp: distinct_map)
qed

lemma adapt_moves_result:
  "distinct ms \<Longrightarrow> 0 \<le> i \<Longrightarrow> nat i + length ms \<le> length probs \<Longrightarrow>
   \<exists>P'. adapt_moves pol state mv probs i ms = Inr P' \<and>
     (\<forall>j < length ms. P' (state, ms ! j) =
         Some (if ms ! j = mv then policy_get pol (state, ms ! j) + 1
               else policy_get pol (state, ms ! j) - probs ! (nat i + j))) \<and>
     (\<forall>k. k \<notin> (\<lambda>m. (state, m)) ` set ms \<longrightarrow> P' k = pol k)"
proof (induction ms arbitrary: pol i)
  case Nil
  then show ?case by simp
next
  case (Cons m ms)
  let ?w = "(if m = mv then policy_get pol (state, m) + 1
             else policy_get pol (state, m) - probs ! nat i)"
  let ?pol1 = "pol((state, m) \<mapsto> ?w)"
  have gi: "getitem probs i = Inr (probs ! nat i)"
    using Cons.prems by (simp add: getitem_def py_index_def)
  have step: "adapt_moves pol state mv probs i (m # ms) = adapt_moves ?pol1 state mv probs (i + 1) ms"
    using gi by simp
  have d: "distinct ms" "m \<notin> set ms" using Cons.prems(1) by auto
  have b: "0 \<le> i + 1" "nat (i + 1) + length ms \<le> length probs" using Cons.prems by auto
  from Cons.IH[OF d(1) b, of ?pol1] obtain P' where
    P': "adapt_moves ?pol1 state mv probs (i + 1) ms = Inr P'"
    and upd: "\<forall>j < length ms. P' (state, ms ! j) =
         Some (if ms ! j = mv then policy_get ?pol1 (state, ms ! j) + 1
               else policy_get ?pol1 (state, ms ! j) - probs ! (nat (i + 1) + j))"
    and frame: "\<forall>k. k \<notin> (\<lambda>m. (state, m)) ` set ms \<longrightarrow> P' k = ?pol1 k"
    by blast
  have other: "policy_get ?pol1 (state, m') = policy_get pol (state, m')" if "m' \<in> set ms" for m'
    using that d(2) by (auto simp: policy_get_def)
  have A: "P' (state, (m # ms) ! j) =
         Some (if (m # ms) ! j = mv then policy_get pol (state, (m # ms) ! j) + 1
               else policy_get pol (state, (m # ms) ! j) - probs ! (nat i + j))"
    if j: "j < length (m # ms)" for j
  proof (cases j)
    case 0
    have "(state, m) \<notin> (\<lambda>m. (state, m)) ` set ms" using d(2) by auto
    with frame have "P' (state, m) = ?pol1 (state, m)" by blast
    with 0 show ?thesis by simp
  next
    case (Suc j')
    with j have j': "j' < length ms" by simp
    then have mem: "ms ! j' \<in> set ms" by simp
    have n: "nat (i + 1) + j' = nat i + Suc j'" using Cons.prems(2) by simp
    from upd j' have "P' (state, ms ! j') =
         Some (if ms ! j' = mv then policy_get ?pol1 (state, ms ! j') + 1
               else policy_get ?pol1 (state, ms ! j') - probs ! (nat (i + 1) + j'))"
      by blast
    then have "P' (state, ms ! j') =
         Some (if ms ! j' = mv then policy_get pol (state, ms ! j') + 1
               else policy_get pol (state, ms ! j') - probs ! (nat i + Suc j'))"
      by (simp only: other[OF mem] n)
    then show ?thesis unfolding Suc by (simp only: nth_Cons_Suc)
  qed
  have B: "P' k = pol k" if "k \<notin> (\<lambda>m. (state, m)) ` set (m # ms)" for k
  proof -
    from that have k: "k \<notin> (\<lambda>m. (state, m)) ` set ms" "k \<noteq> (state, m)" by auto
    from frame k(1) have "P' k = ?pol1 k" by blast
    with k(2) show ?thesis by (metis fun_upd_other)
  qed
  from step P' A B show ?case by (simp only:) blast
qed

definition start_key :: state_key where
  "start_key = from_board_to_state KalahGame_init"

definition adapted_policy :: policy where
  "adapted_policy =
     Map.empty((start_key, Some 0) \<mapsto> 1, (start_key, Some 1) \<mapsto> - (1 / 6),
       (start_key, Some 2) \<mapsto> - (1 / 6), (start_key, Some 3) \<mapsto> - (1 / 6),
       (start_key, Some 4) \<mapsto> - (1 / 6), (start_key, Some 5) \<mapsto> - (1 / 6))"

lemma start_game: "state_game start_key = KalahGame_init"
  by (simp add: state_game_def start_key_def from_board_to_state_def KalahGame_init_def)

lemma start_moves:
  "valid_moves KalahGame_init (current_player KalahGame_init)
     = Inr [Some 0, Some 1, Some 2, Some 3, Some 4, Some 5]"
  by code_simp

lemma start_probs:
  "softmax_probs Map.empty KalahGame_init [Some 0, Some 1, Some 2, Some 3, Some 4, Some 5]
     = Inr [1 / 6, 1 / 6, 1 / 6, 1 / 6, 1 / 6, 1 / 6]"
  by (simp add: softmax_probs_def policy_get_def)

lemma start_probs': "softmax_probs Map.empty (state_game start_key) [Some 0, Some 1, Some 2, Some 3, Some 4, Some 5]
     = Inr [1 / 6, 1 / 6, 1 / 6, 1 / 6, 1 / 6, 1 / 6]"
  by (simp only: start_game start_probs)

lemma start_moves': "valid_moves (state_game start_key) (current_player (state_game start_key))
     = Inr [Some 0, Some 1, Some 2, Some 3, Some 4, Some 5]"
  by (simp only: start_game start_moves)

lemma start_adapt: "adapt Map.empty [(Some 0, start_key)] = Inr adapted_policy"
  apply (simp only: adapt.simps start_moves' sum.case start_probs')
  apply (simp add: policy_get_def getitem_def py_index_def adapted_policy_def)
  done

text \<open>
  C4, as stated, fails. From the empty policy and the one-pair sequence with move 0 at
  the initial state, the softmax probability of every move is \<open>1/6\<close>; after \<open>adapt\<close> the
  weight of the chosen move is 1, not \<open>0 + 1 - 1/6\<close>: the chosen move is not decremented
  by its probability.
\<close>

theorem adapt_chosen_move_not_decremented:
  "softmax_probs Map.empty (state_game start_key) [Some 0, Some 1, Some 2, Some 3, Some 4, Some 5]
     = Inr [1 / 6, 1 / 6, 1 / 6, 1 / 6, 1 / 6, 1 / 6] \<and>
   adapt Map.empty [(Some 0, start_key)] = Inr adapted_policy \<and>
   policy_get adapted_policy (start_key, Some 0) = 1 \<and>
   policy_get adapted_policy (start_key, Some 0)
     \<noteq> policy_get Map.empty (start_key, Some 0) + 1 - 1 / 6"
  by (simp only: start_probs' start_adapt) (simp add: adapted_policy_def policy_get_def)

text \<open>
  C4, amended. One adapt step on a pair (move, state) whose state has the valid moves
  \<open>ms\<close> computes the softmax probabilities of \<open>ms\<close> under the policy as it is before the
  step, then adds 1 to the weight of the chosen move, subtracts from the weight of every
  other valid move that move's probability, leaves every other key of the policy as it
  was, and goes on with the rest of the sequence under the new policy.
\<close>

theorem adapt_step:
  assumes "valid_moves (state_game state) (current_player (state_game state)) = Inr ms"
  shows "\<exists>probs P'. softmax_probs pol (state_game state) ms = Inr probs \<and>
           adapt pol ((mv, state) # rest) = adapt P' rest \<and>
           (\<forall>j < length ms. policy_get P' (state, ms ! j) =
              (if ms ! j = mv then policy_get pol (state, ms ! j) + 1
               else policy_get pol (state, ms ! j) - probs ! j)) \<and>
           (\<forall>k. k \<notin> (\<lambda>m. (state, m)) ` set ms \<longrightarrow> P' k = pol k)"
proof -
  from valid_moves_distinct[OF assms] have d: "distinct ms" "ms \<noteq> []" by simp_all
  from softmax_probs_length[OF d(2), of pol "state_game state"] obtain probs where
    pr: "softmax_probs pol (state_game state) ms = Inr probs" "length probs = length ms"
    by blast
  from adapt_moves_result[OF d(1), of 0 probs pol state mv] pr(2) obtain P' where
    P': "adapt_moves pol state mv probs 0 ms = Inr P'"
    and upd: "\<forall>j < length ms. P' (state, ms ! j) =
         Some (if ms ! j = mv then policy_get pol (state, ms ! j) + 1
               else policy_get pol (state, ms ! j) - probs ! (nat 0 + j))"
    and frame: "\<forall>k. k \<notin> (\<lambda>m. (state, m)) ` set ms \<longrightarrow> P' k = pol k"
    by auto
  have run: "adapt pol ((mv, state) # rest) = adapt P' rest"
    using assms pr(1) P' by simp
  have upd': "\<forall>j < length ms. policy_get P' (state, ms ! j) =
              (if ms ! j = mv then policy_get pol (state, ms ! j) + 1
               else policy_get pol (state, ms ! j) - probs ! j)"
    using upd by (simp add: policy_get_def)
  from pr(1) run upd' frame show ?thesis by blast
qed

theorem adapt_step_witness:
  "valid_moves (state_game start_key) (current_player (state_game start_key))
     = Inr [Some 0, Some 1, Some 2, Some 3, Some 4, Some 5] \<and>
   (\<exists>probs P'.
      softmax_probs Map.empty (state_game start_key)
        [Some 0, Some 1, Some 2, Some 3, Some 4, Some 5] = Inr probs \<and>
      adapt Map.empty [(Some 0, start_key)] = Inr P' \<and>
      policy_get P' (start_key, Some 0) = 1 \<and>
      policy_get P' (start_key, Some 1) = - (probs ! 1))"
proof -
  define ms :: "int option list" where "ms = [Some 0, Some 1, Some 2, Some 3, Some 4, Some 5]"
  have vm: "valid_moves (state_game start_key) (current_player (state_game start_key)) = Inr ms"
    unfolding ms_def by (rule start_moves')
  from adapt_step[OF vm, of Map.empty "Some 0" "[]"] obtain probs P' where
    pr: "softmax_probs Map.empty (state_game start_key) ms = Inr probs"
    and ad: "adapt Map.empty [(Some 0, start_key)] = adapt P' []"
    and upd: "\<forall>j < length ms.
        policy_get P' (start_key, ms ! j) =
              (if ms ! j = Some 0 then policy_get Map.empty (start_key, ms ! j) + 1
               else policy_get Map.empty (start_key, ms ! j) - probs ! j)"
    by blast
  from upd[rule_format, of 0] have a: "policy_get P' (start_key, Some 0) = 1"
    by (simp add: policy_get_def ms_def)
  from upd[rule_format, of 1] have b: "policy_get P' (start_key, Some 1) = - (probs ! 1)"
    by (simp add: policy_get_def ms_def)
  from vm pr ad a b show ?thesis unfolding ms_def by auto
qed

section \<open>KalahMCTS.py\<close>

text \<open>
  \<open>MCTSNode\<close>. Nodes are objects that refer to one another (a child holds its parent, a
  parent its children) and are updated in place, so the tree is a store from node
  references to node records, and \<open>parent\<close> and \<open>children\<close> hold references. The field
  \<open>value\<close> of the source is \<open>node_value\<close> here. It is a double that starts at 0.0 and only
  ever receives the rewards of \<open>rollout\<close>, the integers -1, 0 and 1; such sums are
  integers far below \<open>2 ^ 53\<close>, where double addition is exact, so the field and the
  rewards are integers in the model. The \<open>defaultdict\<close> tables are total functions with
  default 0.
\<close>

record MCTSNode =
  game_state :: state_key
  parent :: "nat option"
  move :: "int option"
  children :: "nat list"
  visits :: int
  node_value :: int
  untried_moves :: "int option list"
  player :: int
  rave_visits :: "int option \<Rightarrow> int"
  rave_value :: "int option \<Rightarrow> int"
  prior :: real

type_synonym store = "nat \<Rightarrow> MCTSNode"

text \<open>
  \<open>backpropagate\<close>. \<open>update_stats\<close> is the first half of the method, the update of the
  node itself: the visit count, the value and, with \<open>use_rave\<close>, the loop over
  \<open>visited_moves\<close>. The second half climbs to the parent. On a cyclic parent chain the
  source recurses without end; the model then has no result (\<open>None\<close>).
\<close>

fun rave_update :: "MCTSNode \<Rightarrow> int \<Rightarrow> int option list \<Rightarrow> MCTSNode" where
  "rave_update nd reward [] = nd"
| "rave_update nd reward (m # ms) =
     rave_update
       (nd\<lparr>rave_visits := (rave_visits nd)(m := rave_visits nd m + 1),
           rave_value := (rave_value nd)(m := rave_value nd m + reward)\<rparr>)
       reward ms"

definition update_stats :: "MCTSNode \<Rightarrow> int \<Rightarrow> int option list \<Rightarrow> bool \<Rightarrow> MCTSNode" where
  "update_stats nd reward visited_moves use_rave =
     (let nd1 = nd\<lparr>visits := visits nd + 1, node_value := node_value nd + reward\<rparr>
      in if use_rave then rave_update nd1 reward visited_moves else nd1)"

partial_function (option) backpropagate ::
  "store \<Rightarrow> nat \<Rightarrow> int \<Rightarrow> int option list \<Rightarrow> bool \<Rightarrow> store option" where
  "backpropagate h self reward visited_moves use_rave =
     (let h' = h(self := update_stats (h self) reward visited_moves use_rave)
      in case parent (h' self) of
           None \<Rightarrow> Some h'
         | Some p \<Rightarrow>
             if player (h' p) = player (h' self)
             then backpropagate h' p reward visited_moves use_rave
             else backpropagate h' p (- reward) visited_moves use_rave)"

text \<open>
  A parent chain: a list of node references, each the parent of the one before, ending
  at a node without parent (the root). \<open>arriving h path r\<close> lists the reward that
  reaches each node of the chain when \<open>r\<close> reaches its first node.
\<close>

fun parent_chain :: "store \<Rightarrow> nat list \<Rightarrow> bool" where
  "parent_chain h [] = False"
| "parent_chain h [n] = (parent (h n) = None)"
| "parent_chain h (n # p # rest) = (parent (h n) = Some p \<and> parent_chain h (p # rest))"

fun arriving :: "store \<Rightarrow> nat list \<Rightarrow> int \<Rightarrow> int list" where
  "arriving h [] r = []"
| "arriving h [n] r = [r]"
| "arriving h (n # p # rest) r =
     r # arriving h (p # rest) (if player (h p) = player (h n) then r else - r)"

subsection \<open>Backpropagation\<close>

lemma rave_update_frame [simp]:
  "parent (rave_update nd r ms) = parent nd"
  "player (rave_update nd r ms) = player nd"
  "node_value (rave_update nd r ms) = node_value nd"
  "visits (rave_update nd r ms) = visits nd"
  by (induction nd r ms rule: rave_update.induct) simp_all

lemma update_stats_frame [simp]:
  "parent (update_stats nd r ms ur) = parent nd"
  "player (update_stats nd r ms ur) = player nd"
  "node_value (update_stats nd r ms ur) = node_value nd + r"
  "visits (update_stats nd r ms ur) = visits nd + 1"
  by (simp_all add: update_stats_def Let_def)

lemma parent_chain_cong:
  "(\<And>n. n \<in> set path \<Longrightarrow> parent (h' n) = parent (h n)) \<Longrightarrow>
   parent_chain h' path = parent_chain h path"
  by (induction h path rule: parent_chain.induct) auto

lemma arriving_cong:
  "(\<And>n. n \<in> set path \<Longrightarrow> player (h' n) = player (h n)) \<Longrightarrow>
   arriving h' path r = arriving h path r"
  by (induction h path r rule: arriving.induct) auto

lemma length_arriving [simp]: "length (arriving h path r) = length path"
  by (induction h path r rule: arriving.induct) auto

lemma arriving_0: "path \<noteq> [] \<Longrightarrow> arriving h path r ! 0 = r"
  by (induction h path r rule: arriving.induct) auto

lemma arriving_Suc:
  "Suc i < length path \<Longrightarrow>
   arriving h path r ! Suc i =
      (if player (h (path ! Suc i)) = player (h (path ! i)) then arriving h path r ! i
       else - (arriving h path r ! i))"
proof (induction h path r arbitrary: i rule: arriving.induct)
  case (3 h n p rest r)
  then show ?case by (cases i) (auto simp: arriving_0)
qed simp_all

lemma backpropagate_path:
  "parent_chain h path \<Longrightarrow> distinct path \<Longrightarrow>
   \<exists>h'. backpropagate h (hd path) r vm ur = Some h' \<and>
     (\<forall>n. player (h' n) = player (h n) \<and> parent (h' n) = parent (h n)) \<and>
     (\<forall>n. n \<notin> set path \<longrightarrow> h' n = h n) \<and>
     (\<forall>i < length path. node_value (h' (path ! i)) = node_value (h (path ! i)) + arriving h path r ! i \<and>
         visits (h' (path ! i)) = visits (h (path ! i)) + 1)"
proof (induction path arbitrary: h r)
  case Nil
  then show ?case by simp
next
  case (Cons n path')
  show ?case
  proof (cases path')
    case Nil
    with Cons.prems show ?thesis
      by (subst backpropagate.simps) (simp add: Let_def)
  next
    case (Cons p rest)
    note path' = this
    let ?h2 = "h(n := update_stats (h n) r vm ur)"
    let ?r' = "(if player (h p) = player (h n) then r else - r)"
    have fr: "\<And>m. parent (?h2 m) = parent (h m)" "\<And>m. player (?h2 m) = player (h m)"
      by auto
    have other: "\<And>m. m \<noteq> n \<Longrightarrow> ?h2 m = h m" by auto
    have self: "node_value (?h2 n) = node_value (h n) + r" "visits (?h2 n) = visits (h n) + 1"
      by auto
    have par: "parent (h n) = Some p" using Cons.prems(1) path' by simp
    have pc: "parent_chain ?h2 (p # rest)"
      using Cons.prems(1) parent_chain_cong[of "p # rest" ?h2 h] fr path' by simp
    have d: "distinct (p # rest)" "n \<notin> set (p # rest)" using Cons.prems(2) path' by auto
    have arr: "arriving ?h2 (p # rest) ?r' = arriving h (p # rest) ?r'"
      using arriving_cong[of "p # rest" ?h2 h] fr by simp
    have "\<exists>h'. backpropagate ?h2 p ?r' vm ur = Some h' \<and>
       (\<forall>m. player (h' m) = player (?h2 m) \<and> parent (h' m) = parent (?h2 m)) \<and>
       (\<forall>m. m \<notin> set (p # rest) \<longrightarrow> h' m = ?h2 m) \<and>
       (\<forall>i < length (p # rest). node_value (h' ((p # rest) ! i)) =
            node_value (?h2 ((p # rest) ! i)) + arriving ?h2 (p # rest) ?r' ! i \<and>
           visits (h' ((p # rest) ! i)) = visits (?h2 ((p # rest) ! i)) + 1)"
      using Cons.IH[of ?h2 ?r'] pc d(1) path' by (simp del: fun_upd_apply)
    then obtain h' where h': "backpropagate ?h2 p ?r' vm ur = Some h'"
       "\<forall>m. player (h' m) = player (?h2 m) \<and> parent (h' m) = parent (?h2 m)"
       "\<forall>m. m \<notin> set (p # rest) \<longrightarrow> h' m = ?h2 m"
       "\<forall>i < length (p # rest). node_value (h' ((p # rest) ! i)) =
            node_value (?h2 ((p # rest) ! i)) + arriving ?h2 (p # rest) ?r' ! i \<and>
           visits (h' ((p # rest) ! i)) = visits (?h2 ((p # rest) ! i)) + 1"
      by blast
    have run: "backpropagate h n r vm ur = Some h'"
      using h'(1) par fr by (subst backpropagate.simps) (auto simp: Let_def split: if_splits)
    have A: "\<forall>m. player (h' m) = player (h m) \<and> parent (h' m) = parent (h m)"
      using h'(2) fr by simp
    have B: "\<forall>m. m \<notin> set (n # p # rest) \<longrightarrow> h' m = h m"
      using h'(3) other by simp
    have C: "node_value (h' ((n # p # rest) ! i)) =
               node_value (h ((n # p # rest) ! i)) + arriving h (n # p # rest) r ! i \<and>
             visits (h' ((n # p # rest) ! i)) = visits (h ((n # p # rest) ! i)) + 1"
      if i: "i < length (n # p # rest)" for i
    proof (cases i)
      case 0
      have "h' n = ?h2 n" using h'(3) d(2) by blast
      with 0 self show ?thesis by simp
    next
      case (Suc j)
      then have j: "j < length (p # rest)" using i by simp
      then have "(p # rest) ! j \<in> set (p # rest)" using nth_mem by blast
      then have ne: "(p # rest) ! j \<noteq> n" using d(2) by metis
      from h'(4) j have
        "node_value (h' ((p # rest) ! j)) =
            node_value (?h2 ((p # rest) ! j)) + arriving ?h2 (p # rest) ?r' ! j \<and>
         visits (h' ((p # rest) ! j)) = visits (?h2 ((p # rest) ! j)) + 1"
        by blast
      with other[OF ne] arr Suc show ?thesis by simp
    qed
    show ?thesis using run A B C path' by auto
  qed
qed

text \<open>
  C2. Let a chain of nodes lead from a node to the root, without repetition, and let a
  reward \<open>r\<close> be backpropagated from its first node. The call returns, the first node's
  value grows by \<open>r\<close>, and for every node \<open>N = path ! i\<close> of the chain with parent
  \<open>P = path ! Suc i\<close>: the value of \<open>P\<close> changes by the amount the value of \<open>N\<close> changes by
  when both have the same player, and by its negation when the players differ. This holds
  at every position of the chain, so also where consecutive nodes share a player.
\<close>

theorem backpropagate_sign:
  assumes "parent_chain h path" and "distinct path" and "Suc i < length path"
  shows "\<exists>h'. backpropagate h (hd path) r vm ur = Some h' \<and>
           node_value (h' (hd path)) = node_value (h (hd path)) + r \<and>
           node_value (h' (path ! Suc i)) - node_value (h (path ! Suc i)) =
             (if player (h (path ! Suc i)) = player (h (path ! i))
              then node_value (h' (path ! i)) - node_value (h (path ! i))
              else - (node_value (h' (path ! i)) - node_value (h (path ! i))))"
proof -
  from backpropagate_path[OF assms(1,2), of r vm ur] obtain h' where
    h': "backpropagate h (hd path) r vm ur = Some h'"
    and val: "\<forall>i < length path. node_value (h' (path ! i)) = node_value (h (path ! i)) + arriving h path r ! i"
    by blast
  note step = arriving_Suc[OF assms(3), of h r]
  have hd0: "hd path = path ! 0" using assms(3) by (cases path) auto
  have a0: "arriving h path r ! 0 = r" using assms(3) by (intro arriving_0) auto
  from val assms(3) have v1: "node_value (h' (path ! Suc i)) = node_value (h (path ! Suc i)) + arriving h path r ! Suc i"
    and v0: "node_value (h' (path ! i)) = node_value (h (path ! i)) + arriving h path r ! i"
    and vh: "node_value (h' (path ! 0)) = node_value (h (path ! 0)) + arriving h path r ! 0"
    by force+
  show ?thesis using h' v1 v0 vh step hd0 a0 by auto
qed

definition example_node :: "nat option \<Rightarrow> int \<Rightarrow> MCTSNode" where
  "example_node par pl =
     \<lparr>game_state = ([], 0), parent = par, move = None, children = [], visits = 0,
      node_value = 0, untried_moves = [], player = pl, rave_visits = (\<lambda>_. 0),
      rave_value = (\<lambda>_. 0), prior = 1\<rparr>"

definition example_tree :: store where
  "example_tree =
     (\<lambda>_. example_node None 0)(1 := example_node (Some 0) 0, 2 := example_node (Some 1) 1)"

theorem backpropagate_sign_witness:
  "parent_chain example_tree [2, 1, 0] \<and> distinct [2, 1, 0 :: nat] \<and>
   (\<exists>h'. backpropagate example_tree 2 1 [] False = Some h' \<and>
      node_value (h' 2) = 1 \<and> node_value (h' 1) = - 1 \<and> node_value (h' 0) = - 1)"
proof -
  have pc: "parent_chain example_tree [2, 1, 0]"
    by (simp add: example_tree_def example_node_def)
  have d: "distinct [2, 1, 0 :: nat]" by simp
  from backpropagate_sign[OF pc d, of 0 1 "[]" False] obtain h' where
    h': "backpropagate example_tree 2 1 [] False = Some h'"
    and v2: "node_value (h' 2) = node_value (example_tree 2) + 1"
    and v1: "node_value (h' 1) - node_value (example_tree 1) =
             (if player (example_tree 1) = player (example_tree 2)
              then node_value (h' 2) - node_value (example_tree 2)
              else - (node_value (h' 2) - node_value (example_tree 2)))"
    by auto
  from backpropagate_sign[OF pc d, of 1 1 "[]" False] h' have
    v0: "node_value (h' 0) - node_value (example_tree 0) =
             (if player (example_tree 0) = player (example_tree 1)
              then node_value (h' 1) - node_value (example_tree 1)
              else - (node_value (h' 1) - node_value (example_tree 1)))"
    by auto
  have "node_value (h' 2) = 1" "node_value (h' 1) = - 1" "node_value (h' 0) = - 1"
    using v2 v1 v0 by (simp_all add: example_tree_def example_node_def)
  with pc d h' show ?thesis by blast
qed

subsection \<open>Expansion and the PUCT prior\<close>

text \<open>
  \<open>MCTSNode.__init__\<close>: the untried moves are the valid moves of the node's state;
  \<open>get_game_copy\<close> of a node is \<open>state_game\<close> of its state. The prior starts at 1.0. Priors are
  doubles in the source and reals in the model, as are the scores of \<open>evaluate\<close>.
\<close>

definition MCTSNode_init :: "state_key \<Rightarrow> nat option \<Rightarrow> int option \<Rightarrow> int \<Rightarrow> error + MCTSNode" where
  "MCTSNode_init st par mv pl =
     (case valid_moves (state_game st) (current_player (state_game st)) of
        Inl e \<Rightarrow> Inl e
      | Inr ms \<Rightarrow>
          Inr \<lparr>game_state = st, parent = par, move = mv, children = [], visits = 0,
               node_value = 0, untried_moves = ms, player = pl, rave_visits = (\<lambda>_. 0),
               rave_value = (\<lambda>_. 0), prior = 1\<rparr>)"

text \<open>
  The PUCT part of \<open>expand\<close>. It runs after \<open>game.perform_move(move, ...)\<close>, so \<open>game\<close> is
  the state after the expanded move: the loop scores the moves that are valid there.
  \<open>move_scores\<close> is a dictionary, \<open>move_scores.get(move, 0)\<close> its lookup with default 0.
\<close>

fun puct_scores ::
  "KalahGame \<Rightarrow> int option list \<Rightarrow> (int option \<times> real) list \<Rightarrow> real \<Rightarrow>
   error + ((int option \<times> real) list \<times> real)" where
  "puct_scores game [] move_scores total_score = Inr (move_scores, total_score)"
| "puct_scores game (m # ms) move_scores total_score =
     (case perform_move m (current_player game) game of
        Inl e \<Rightarrow> Inl e
      | Inr temp_game \<Rightarrow>
          (case evaluate temp_game (current_player game) of
             Inl e \<Rightarrow> Inl e
           | Inr score \<Rightarrow>
               puct_scores game ms (AList.update m score move_scores) (total_score + score)))"




definition behind_next :: KalahGame where
  "behind_next = \<lparr>board = [13,1,1,1,1,1, 6, 1,1,1,1,1,11, 8], current_player = 0, last_pit = Some 6\<rparr>"









lemma behind_next_scores:
  "puct_scores behind_next [Some 0, Some 1, Some 2, Some 3, Some 4, Some 5] [] 0
     = Inr ([(Some 0, 113 / 10), (Some 1, - 2), (Some 2, - 2), (Some 3, - 2), (Some 4, - 2),
             (Some 5, - 1)], 23 / 10)"
  by code_simp





















subsection \<open>Budgeted halving: SHOT and SHUSS\<close>

text \<open>
  \<open>run_shot\<close> and \<open>run_shuss\<close> first create one child node for each valid move of the
  root; \<open>move_nodes\<close> pairs each move with the reference of its node. The new nodes are
  not appended to the root's \<open>children\<close>.
\<close>

type_synonym tree = "store \<times> nat"

fun create_children ::
  "tree \<Rightarrow> nat \<Rightarrow> int option list \<Rightarrow> (int option \<times> nat) list \<Rightarrow>
   error + (tree \<times> (int option \<times> nat) list)" where
  "create_children t root_node [] move_nodes = Inr (t, move_nodes)"
| "create_children t root_node (m # ms) move_nodes =
     (let g_copy = state_game (game_state (fst t root_node)) in
      case perform_move m (current_player g_copy) g_copy of
        Inl e \<Rightarrow> Inl e
      | Inr g_moved \<Rightarrow>
          (case MCTSNode_init (from_board_to_state g_moved) (Some root_node) m (current_player g_moved) of
             Inl e \<Rightarrow> Inl e
           | Inr child \<Rightarrow>
               create_children ((fst t)(snd t := child), Suc (snd t)) root_node ms
                 (move_nodes @ [(m, snd t)])))"

text \<open>
  One playout is \<open>tree_policy\<close>, \<open>rollout\<close> and \<open>backpropagate\<close> from a candidate node. It
  draws random moves and may grow the tree below the node; in the model it is a
  parameter \<open>playout\<close>, any function from a node reference and a tree to a tree, so that
  what is proved holds for every outcome of the random choices. \<open>simulate_all\<close> is the
  double loop of a round: \<open>range(simulations_per_node)\<close> playouts for each candidate
  (none when the number is not positive).
\<close>

definition simulate_all ::
  "(nat \<Rightarrow> tree \<Rightarrow> tree) \<Rightarrow> int \<Rightarrow> (int option \<times> nat) list \<Rightarrow> tree \<Rightarrow> tree" where
  "simulate_all playout sims move_nodes t =
     fold (\<lambda>x t'. ((playout (snd x)) ^^ nat sims) t') move_nodes t"

text \<open>
  \<open>list.sort(key = ..., reverse = True)\<close> is stable: elements with equal keys keep their
  order. The keys are the mean value for SHOT and the SHUSS score, computed over the
  reals; \<open>c or self.shuss_c\<close> takes \<open>shuss_c\<close> when \<open>c\<close> is \<open>None\<close> or 0.
\<close>

definition sort_reverse :: "('a \<Rightarrow> real) \<Rightarrow> 'a list \<Rightarrow> 'a list" where
  "sort_reverse k xs = rev (sort_key k (rev xs))"

definition shot_score :: "tree \<Rightarrow> nat \<Rightarrow> real" where
  "shot_score t node =
     real_of_int (node_value (fst t node)) / (real_of_int (visits (fst t node)) + 1 / 10000)"

definition shuss_score :: "nat \<Rightarrow> real option \<Rightarrow> real \<Rightarrow> tree \<Rightarrow> nat \<Rightarrow> real" where
  "shuss_score root_node c shuss_c t node =
     (let q = real_of_int (node_value (fst t node)) / (real_of_int (visits (fst t node)) + 1 / 10000);
          amaf = real_of_int (rave_value (fst t root_node) (move (fst t node)));
          p = real_of_int (rave_visits (fst t root_node) (move (fst t node))) + 1 / 10000
      in q + (case c of None \<Rightarrow> shuss_c | Some c' \<Rightarrow> if c' = 0 then shuss_c else c') * (amaf / p))"

text \<open>
  The halving loop, which the two functions share but for the playout and the key.
  \<open>int(math.log2(total_k + 1))\<close> is \<open>floorlog 2 (total_k + 1) - 1\<close>. The loop returns
  \<open>move_nodes[0][0]\<close>; the model returns with it the number of rounds the loop ran, which
  the source does not compute.
\<close>

function halving ::
  "(nat \<Rightarrow> tree \<Rightarrow> tree) \<Rightarrow> (tree \<Rightarrow> nat \<Rightarrow> real) \<Rightarrow> int \<Rightarrow> nat \<Rightarrow> nat \<Rightarrow>
   (int option \<times> nat) list \<Rightarrow> tree \<Rightarrow> nat \<Rightarrow> error + (int option \<times> nat)" where
  "halving playout score budget total_k k move_nodes t rounds =
     (if k > 1 then
        (if int k * int (floorlog 2 (total_k + 1) - 1) = 0 then Inl ZeroDivisionError
         else
           (let simulations_per_node = budget div (int k * int (floorlog 2 (total_k + 1) - 1));
                t' = simulate_all playout simulations_per_node move_nodes t
            in halving playout score budget total_k (k div 2)
                 (take (max 1 (k div 2)) (sort_reverse (\<lambda>x. score t' (snd x)) move_nodes))
                 t' (Suc rounds)))
      else (case move_nodes of [] \<Rightarrow> Inl IndexError | x # _ \<Rightarrow> Inr (fst x, rounds)))"
  by pat_completeness auto
termination
  by (relation "measure (\<lambda>(playout, score, budget, total_k, k, move_nodes, t, rounds). k)") auto

declare halving.simps [simp del]

definition run_shot ::
  "(nat \<Rightarrow> tree \<Rightarrow> tree) \<Rightarrow> tree \<Rightarrow> nat \<Rightarrow> int \<Rightarrow> error + (int option \<times> nat)" where
  "run_shot playout t root_node budget =
     (let game = state_game (game_state (fst t root_node)) in
      case valid_moves game (current_player game) of
        Inl e \<Rightarrow> Inl e
      | Inr ms \<Rightarrow>
          (case create_children t root_node ms [] of
             Inl e \<Rightarrow> Inl e
           | Inr (t1, move_nodes) \<Rightarrow>
               if length move_nodes = 1 then
                 (case move_nodes of [] \<Rightarrow> Inl IndexError | x # _ \<Rightarrow> Inr (fst x, 0))
               else
                 halving playout shot_score budget (length move_nodes) (length move_nodes)
                   move_nodes t1 0))"

definition run_shuss ::
  "(nat \<Rightarrow> tree \<Rightarrow> tree) \<Rightarrow> real \<Rightarrow> tree \<Rightarrow> nat \<Rightarrow> int \<Rightarrow> real option \<Rightarrow>
   error + (int option \<times> nat)" where
  "run_shuss playout shuss_c t root_node budget c =
     (let game = state_game (game_state (fst t root_node)) in
      case valid_moves game (current_player game) of
        Inl e \<Rightarrow> Inl e
      | Inr ms \<Rightarrow>
          (case create_children t root_node ms [] of
             Inl e \<Rightarrow> Inl e
           | Inr (t1, move_nodes) \<Rightarrow>
               if length move_nodes = 1 then
                 (case move_nodes of [] \<Rightarrow> Inl IndexError | x # _ \<Rightarrow> Inr (fst x, 0))
               else
                 halving playout (shuss_score root_node c shuss_c) budget (length move_nodes)
                   (length move_nodes) move_nodes t1 0))"

lemma sort_reverse_set [simp]: "set (sort_reverse k xs) = set xs"
  by (simp add: sort_reverse_def)

lemma sort_reverse_length [simp]: "length (sort_reverse k xs) = length xs"
  by (simp add: sort_reverse_def)

lemma floorlog_divisor: "2 \<le> total_k \<Longrightarrow> 1 \<le> floorlog 2 (total_k + 1) - 1"
  using floorlog_ge_SucI[of 2 1 "total_k + 1"] by simp

lemma halving_result:
  "length move_nodes = k \<Longrightarrow> 1 \<le> k \<Longrightarrow> 2 \<le> total_k \<or> k = 1 \<Longrightarrow>
   \<exists>mv r. halving playout score budget total_k k move_nodes t rounds = Inr (mv, rounds + r) \<and>
     mv \<in> fst ` set move_nodes \<and> 2 ^ r \<le> k"
proof (induction playout score budget total_k k move_nodes t rounds rule: halving.induct)
  case (1 playout score budget total_k k move_nodes t rounds)
  show ?case
  proof (cases "k > 1")
    case False
    with "1.prems" have k: "k = 1" by simp
    with "1.prems" obtain x where x: "move_nodes = [x]" by (cases move_nodes) auto
    show ?thesis using k x by (subst halving.simps) (auto intro: exI[of _ 0])
  next
    case True
    with "1.prems" have tk: "2 \<le> total_k" by simp
    let ?d = "int k * int (floorlog 2 (total_k + 1) - 1)"
    have d: "?d \<noteq> 0" using True floorlog_divisor[OF tk] by simp
    let ?t' = "simulate_all playout (budget div ?d) move_nodes t"
    let ?mn = "take (max 1 (k div 2)) (sort_reverse (\<lambda>x. score ?t' (snd x)) move_nodes)"
    have len: "length ?mn = k div 2" using "1.prems"(1) True by simp
    have k2: "1 \<le> k div 2" using True by simp
    from "1.IH"[OF True d refl refl len k2] tk obtain mv r where
      r: "halving playout score budget total_k (k div 2) ?mn ?t' (Suc rounds) = Inr (mv, Suc rounds + r)"
      and mem: "mv \<in> fst ` set ?mn" and pw: "2 ^ r \<le> k div 2"
      by blast
    have step: "halving playout score budget total_k k move_nodes t rounds
                  = halving playout score budget total_k (k div 2) ?mn ?t' (Suc rounds)"
      using True d by (subst halving.simps) (simp add: Let_def)
    have "set ?mn \<subseteq> set move_nodes" using set_take_subset[of "max 1 (k div 2)"] by fastforce
    with mem have mem': "mv \<in> fst ` set move_nodes" by blast
    have "2 ^ Suc r \<le> k" using pw by simp
    with step r mem' show ?thesis by (intro exI[of _ mv] exI[of _ "Suc r"]) simp
  qed
qed


lemma MCTSNode_init_total:
  assumes "length (fst st) = 14" and "snd st = 0 \<or> snd st = 1"
  shows "\<exists>nd. MCTSNode_init st par mv pl = Inr nd"
proof -
  have "length (board (state_game st)) = 14" "current_player (state_game st) = snd st"
    using assms by (simp_all add: state_game_def)
  with valid_moves_total[of "state_game st" "snd st"] assms(2) show ?thesis
    by (auto simp: MCTSNode_init_def)
qed

lemma create_children_result:
  assumes len: "length (fst (game_state (h root_node))) = 14"
    and pl: "snd (game_state (h root_node)) = 0 \<or> snd (game_state (h root_node)) = 1"
    and vm: "valid_moves (state_game (game_state (h root_node))) (snd (game_state (h root_node))) = Inr all_ms"
  shows "set ms \<subseteq> set all_ms \<Longrightarrow> root_node < fresh \<Longrightarrow>
         game_state (h' root_node) = game_state (h root_node) \<Longrightarrow>
         \<exists>t1 mn. create_children (h', fresh) root_node ms acc = Inr (t1, mn) \<and>
           map fst mn = map fst acc @ ms"
proof (induction ms arbitrary: h' fresh acc)
  case Nil
  then show ?case by simp
next
  case (Cons m ms)
  let ?g = "state_game (game_state (h root_node))"
  have g: "length (board ?g) = 14" "current_player ?g = snd (game_state (h root_node))"
    using len by (simp_all add: state_game_def)
  have mem: "m \<in> set all_ms" using Cons.prems(1) by simp
  from valid_moves_mem[OF vm mem]
  have "m = None \<or> (\<exists>i v. m = Some i \<and> getitem (board ?g) i = Inr v \<and> 0 \<le> v)"
    by fastforce
  from perform_move_sum[OF g(1) this, of "current_player ?g"] obtain g_moved where
    pm: "perform_move m (current_player ?g) ?g = Inr g_moved" and l: "length (board g_moved) = 14"
    by blast
  from perform_move_player[OF pm] pl g(2)
  have cp: "current_player g_moved = 0 \<or> current_player g_moved = 1" by simp
  from MCTSNode_init_total[of "from_board_to_state g_moved" "Some root_node" m "current_player g_moved"]
    l cp obtain child where
    ch: "MCTSNode_init (from_board_to_state g_moved) (Some root_node) m (current_player g_moved) = Inr child"
    by (auto simp: from_board_to_state_def)
  have keep: "game_state ((h'(fresh := child)) root_node) = game_state (h root_node)"
    using Cons.prems(2,3) by simp
  have sub: "set ms \<subseteq> set all_ms" using Cons.prems(1) by simp
  have lt: "root_node < Suc fresh" using Cons.prems(2) by simp
  from Cons.IH[of "Suc fresh" "h'(fresh := child)" "acc @ [(m, fresh)]", OF sub lt keep] obtain t1 mn where
    r: "create_children (h'(fresh := child), Suc fresh) root_node ms (acc @ [(m, fresh)]) = Inr (t1, mn)"
    and f: "map fst mn = map fst (acc @ [(m, fresh)]) @ ms"
    by blast
  have "create_children (h', fresh) root_node (m # ms) acc = Inr (t1, mn)"
    using pm ch r Cons.prems(3) by (simp add: Let_def)
  with f show ?case by simp
qed

lemma rounds_le_ceillog2: "2 ^ r \<le> k \<Longrightarrow> r \<le> ceillog2 k"
proof -
  assume "2 ^ r \<le> k"
  also have "k \<le> 2 ^ ceillog2 k" by (rule le_two_power_ceillog2)
  finally have "(2::nat) ^ r \<le> 2 ^ ceillog2 k" .
  then show ?thesis by (simp add: power_le_imp_le_exp)
qed

lemma halving_run:
  assumes mn: "map fst move_nodes = ms" and ne: "ms \<noteq> []"
  shows "\<exists>mv r.
     (if length move_nodes = 1
      then (case move_nodes of [] \<Rightarrow> Inl IndexError | x # _ \<Rightarrow> Inr (fst x, 0))
      else halving playout score budget (length move_nodes) (length move_nodes) move_nodes t 0)
       = Inr (mv, r) \<and> mv \<in> set ms \<and> r \<le> ceillog2 (length ms)"
proof (cases "length move_nodes = 1")
  case True
  then obtain x where x: "move_nodes = [x]" by (cases move_nodes) auto
  with mn show ?thesis by auto
next
  case False
  have l: "length move_nodes = length ms" using mn by (metis length_map)
  with ne False have k: "1 \<le> length move_nodes" "2 \<le> length move_nodes \<or> length move_nodes = 1"
    by (cases ms; cases "tl ms"; auto)+
  from halving_result[OF refl k, of playout score budget t 0] obtain mv r where
    r: "halving playout score budget (length move_nodes) (length move_nodes) move_nodes t 0 = Inr (mv, r)"
    and mem: "mv \<in> fst ` set move_nodes" and pw: "2 ^ r \<le> length move_nodes"
    by auto
  from mem have "mv \<in> set (map fst move_nodes)" by simp
  then have "mv \<in> set ms" unfolding mn .
  with r False rounds_le_ceillog2[OF pw] l show ?thesis by simp
qed

text \<open>
  C3. Let the root be a node of the tree whose state has a board of 14 pits and player 0
  or 1 to move. Then the root has a list \<open>ms\<close> of valid moves, of length \<open>k \<ge> 1\<close>, and for
  every budget and every behaviour of the playouts \<open>run_shot\<close> and \<open>run_shuss\<close> return
  (they do not raise), after at most \<open>ceillog2 k\<close> halving rounds, a move of \<open>ms\<close>.
\<close>

theorem halving_rounds:
  assumes "length (fst (game_state (h root_node))) = 14"
    and "snd (game_state (h root_node)) = 0 \<or> snd (game_state (h root_node)) = 1"
    and "root_node < fresh"
  shows "\<exists>ms. valid_moves (state_game (game_state (h root_node)))
                 (current_player (state_game (game_state (h root_node)))) = Inr ms \<and>
           1 \<le> length ms \<and>
           (\<exists>mv r. run_shot playout (h, fresh) root_node budget = Inr (mv, r) \<and>
              mv \<in> set ms \<and> r \<le> ceillog2 (length ms)) \<and>
           (\<exists>mv r. run_shuss playout_rave shuss_c (h, fresh) root_node budget c = Inr (mv, r) \<and>
              mv \<in> set ms \<and> r \<le> ceillog2 (length ms))"
proof -
  let ?g = "state_game (game_state (h root_node))"
  have g: "length (board ?g) = 14" "current_player ?g = snd (game_state (h root_node))"
    using assms(1) by (simp_all add: state_game_def)
  from valid_moves_total[OF g(1) assms(2)] obtain ms where
    vm: "valid_moves ?g (snd (game_state (h root_node))) = Inr ms" by blast
  from valid_moves_distinct[OF vm] have ne: "ms \<noteq> []" by simp
  from create_children_result[of h root_node ms ms fresh h "[]", OF assms(1,2) vm subset_refl assms(3) refl]
  obtain t1 mn where
    cc: "create_children (h, fresh) root_node ms [] = Inr (t1, mn)" and f: "map fst mn = ms"
    by auto
  from halving_run[OF f ne, of playout shot_score budget t1] obtain mv r where
    a: "run_shot playout (h, fresh) root_node budget = Inr (mv, r)" "mv \<in> set ms"
       "r \<le> ceillog2 (length ms)"
    using vm cc g(2) by (auto simp: run_shot_def Let_def)
  from halving_run[OF f ne, of playout_rave "shuss_score root_node c shuss_c" budget t1]
  obtain mv' r' where
    b: "run_shuss playout_rave shuss_c (h, fresh) root_node budget c = Inr (mv', r')"
       "mv' \<in> set ms" "r' \<le> ceillog2 (length ms)"
    using vm cc g(2) by (auto simp: run_shuss_def Let_def)
  have "1 \<le> length ms" using ne by (cases ms) auto
  with vm g(2) a b show ?thesis by auto
qed

definition start_root :: MCTSNode where
  "start_root =
     \<lparr>game_state = start_key, parent = None, move = None, children = [], visits = 0,
      node_value = 0, untried_moves = [Some 0, Some 1, Some 2, Some 3, Some 4, Some 5],
      player = 0, rave_visits = (\<lambda>_. 0), rave_value = (\<lambda>_. 0), prior = 1\<rparr>"

theorem halving_rounds_witness:
  "length (fst (game_state start_root)) = 14 \<and>
   (snd (game_state start_root) = 0 \<or> snd (game_state start_root) = 1) \<and>
   (0::nat) < 1 \<and>
   (\<exists>ms. valid_moves (state_game (game_state start_root))
                 (current_player (state_game (game_state start_root))) = Inr ms \<and>
           1 \<le> length ms \<and>
           (\<exists>mv r. run_shot (\<lambda>n t. t) ((\<lambda>_. start_root), 1) 0 100 = Inr (mv, r) \<and>
              mv \<in> set ms \<and> r \<le> ceillog2 (length ms)) \<and>
           (\<exists>mv r. run_shuss (\<lambda>n t. t) 128 ((\<lambda>_. start_root), 1) 0 100 None = Inr (mv, r) \<and>
              mv \<in> set ms \<and> r \<le> ceillog2 (length ms)))"
proof -
  have a: "length (fst (game_state start_root)) = 14"
    by (simp add: start_root_def start_key_def from_board_to_state_def KalahGame_init_def)
  have b: "snd (game_state start_root) = 0 \<or> snd (game_state start_root) = 1"
    by (simp add: start_root_def start_key_def from_board_to_state_def KalahGame_init_def)
  have c: "(0::nat) < 1" by simp
  from halving_rounds[of "\<lambda>_. start_root" 0 1 "\<lambda>n t. t" 100 "\<lambda>n t. t" 128 None, OF a b c] a b c
  show ?thesis by blast
qed

end
